theory Spec2Isabelle
  imports Main "HOL-Library.Word"
begin

section \<open>Document model\<close>

text \<open>
  \<^verbatim>\<open>struct Section\<close>: the two vectors are lists, the \<^verbatim>\<open>unordered_map\<close> of raw values (the
  member \<^verbatim>\<open>values\<close>, here \<open>values_map\<close>) is a map from key to raw value.
\<close>

record Section =
  inheritances :: "string list"
  attributes :: "string list"
  values_map :: "string \<rightharpoonup> string"

type_synonym SectionDataHash = "string \<rightharpoonup> Section"

text \<open>
  The \<^verbatim>\<open>CFGParser\<close> object. \<^verbatim>\<open>_msg_functor\<close> is the message sink installed by the
  constructor; the field \<open>messages\<close> records, in order, the strings it has been called with.
\<close>

record CFGParser =
  section_data :: SectionDataHash
  current_file :: string
  base_path :: string
  messages :: "string list"

definition empty_Section :: Section where
  "empty_Section = \<lparr>inheritances = [], attributes = [], values_map = Map.empty\<rparr>"

abbreviation dq :: char where "dq \<equiv> CHR 0x22"
abbreviation sq :: char where "sq \<equiv> CHR 0x27"
abbreviation backslash :: char where "backslash \<equiv> CHR 0x5C"
abbreviation newline :: char where "newline \<equiv> CHR 0x0A"
abbreviation tab :: char where "tab \<equiv> CHR 0x09"

section \<open>Value resolver\<close>

text \<open>
  \<^verbatim>\<open>getValueFromInheritance\<close>: the loop over the section's own \<^verbatim>\<open>inheritances\<close>; the first
  base that exists and holds the key gives the result, otherwise \<^verbatim>\<open>_dummy_str\<close> (empty).
\<close>

fun inheritance_loop :: "SectionDataHash \<Rightarrow> string list \<Rightarrow> string \<Rightarrow> string" where
  "inheritance_loop sd [] k = []"
| "inheritance_loop sd (i # rest) k =
     (case sd i of
        None \<Rightarrow> inheritance_loop sd rest k
      | Some base \<Rightarrow>
          (case values_map base k of
             Some v \<Rightarrow> v
           | None \<Rightarrow> inheritance_loop sd rest k))"

definition getValueFromInheritance :: "SectionDataHash \<Rightarrow> Section \<Rightarrow> string \<Rightarrow> string" where
  "getValueFromInheritance sd sec k = inheritance_loop sd (inheritances sec) k"

definition getString :: "SectionDataHash \<Rightarrow> string \<Rightarrow> string \<Rightarrow> string \<Rightarrow> string" where
  "getString sd s k default_value =
     (case sd s of
        Some sec \<Rightarrow>
          (case values_map sec k of
             Some v \<Rightarrow> v
           | None \<Rightarrow>
               (let v = getValueFromInheritance sd sec k
                in if v \<noteq> [] then v else default_value))
      | None \<Rightarrow> default_value)"

definition hasSection :: "SectionDataHash \<Rightarrow> string \<Rightarrow> bool" where
  "hasSection sd s = (sd s \<noteq> None)"

text \<open>\<^verbatim>\<open>hasKey\<close> reports a missing section to the sink and answers false.\<close>

definition hasKey :: "CFGParser \<Rightarrow> string \<Rightarrow> string \<Rightarrow> bool \<times> CFGParser" where
  "hasKey p s k =
     (case section_data p s of
        Some sec \<Rightarrow> (values_map sec k \<noteq> None, p)
      | None \<Rightarrow>
          (False, p\<lparr>messages := messages p @ [''Section '' @ [dq] @ s @ [dq] @ '' is not exist!'']\<rparr>))"

section \<open>Decimal text\<close>

text \<open>\<^verbatim>\<open>std::to_string\<close> of an unsigned value and of an \<^verbatim>\<open>int\<close>.\<close>

fun to_string :: "nat \<Rightarrow> string" where
  "to_string n =
     (if n < 10 then [''0123456789'' ! n]
      else to_string (n div 10) @ [''0123456789'' ! (n mod 10)])"

declare to_string.simps [simp del]

definition to_string_int :: "int \<Rightarrow> string" where
  "to_string_int i = (if i < 0 then CHR ''-'' # to_string (nat (- i)) else to_string (nat i))"

text \<open>
  \<^verbatim>\<open>set<T>\<close> at \<^verbatim>\<open>T = int\<close> (\<open>set\<close> is the type of sets in HOL, hence \<open>set_value\<close>): the
  value is stored as \<^verbatim>\<open>std::to_string(value)\<close>.
\<close>

definition set_value :: "CFGParser \<Rightarrow> string \<Rightarrow> string \<Rightarrow> int \<Rightarrow> CFGParser" where
  "set_value p s k v =
     (case section_data p s of
        Some sec \<Rightarrow>
          (if values_map sec k \<noteq> None
           then p\<lparr>section_data := (section_data p)(s \<mapsto> sec\<lparr>values_map := (values_map sec)(k \<mapsto> to_string_int v)\<rparr>)\<rparr>
           else p\<lparr>messages := messages p @
                  [''Section '' @ [dq] @ s @ [dq] @ '' key '' @ [dq] @ k @ [dq] @ '' is not exist!'']\<rparr>)
      | None \<Rightarrow>
          p\<lparr>messages := messages p @ [''Section '' @ [dq] @ s @ [dq] @ '' is not exist!'']\<rparr>)"

section \<open>Parser state machine\<close>

datatype ParseAction =
  NEW_LINE | SECTION | INHERITANCE | ATTRIBUTE | KEY | VALUE | VALUE_ARRAY | STRING_VALUE
  | COMMENT | MULTILINE_COMMENT | PREPROCESSOR | INCLUDE | ERROR

text \<open>
  One activation of \<^verbatim>\<open>load\<close>: the object's fields together with the locals of the call.
  The strings \<^verbatim>\<open>section\<close>, \<^verbatim>\<open>inheritance\<close>, \<^verbatim>\<open>attribute\<close>, \<^verbatim>\<open>key\<close> and \<^verbatim>\<open>value\<close> are the
  fields with suffix \<open>_buf\<close>, \<^verbatim>\<open>preprocessor_pair\<close> is the pair of \<open>preprocessor_first\<close> and
  \<open>preprocessor_second\<close>; \<^verbatim>\<open>line\<close> and \<^verbatim>\<open>character_pos\<close> are \<^verbatim>\<open>uint32_t\<close>.
  \<^verbatim>\<open>section_ptr\<close> points into \<^verbatim>\<open>_section_data\<close>; entries are never erased and an
  \<^verbatim>\<open>unordered_map\<close> keeps references to its elements stable, so the pointer is modelled by
  the name of the entry it points to (\<open>None\<close> is \<^verbatim>\<open>nullptr\<close>).
\<close>

record frame = CFGParser +
  section_buf :: string
  inheritance_buf :: string
  attribute_buf :: string
  key_buf :: string
  value_buf :: string
  preprocessor_first :: string
  preprocessor_second :: string
  section_ptr :: "string option"
  parse_action :: ParseAction
  line :: "32 word"
  character_pos :: "32 word"
  ignore_current_spaces :: bool

definition init_frame :: "CFGParser \<Rightarrow> frame" where
  "init_frame p =
     \<lparr>section_data = section_data p, current_file = current_file p, base_path = base_path p,
      messages = messages p,
      section_buf = [], inheritance_buf = [], attribute_buf = [], key_buf = [], value_buf = [],
      preprocessor_first = [], preprocessor_second = [],
      section_ptr = None, parse_action = NEW_LINE, line = 1, character_pos = 0,
      ignore_current_spaces = True\<rparr>"

definition object_of :: "frame \<Rightarrow> CFGParser" where
  "object_of st =
     \<lparr>section_data = section_data st, current_file = current_file st, base_path = base_path st,
      messages = messages st\<rparr>"

definition GetErrorLineString :: "frame \<Rightarrow> string" where
  "GetErrorLineString st =
     ''Error at line '' @ [sq] @ to_string (unat (line st)) @ [sq] @ '', character at '' @ [sq]
       @ to_string (unat (character_pos st)) @ [sq] @ '' : ''"

definition msg :: "string \<Rightarrow> frame \<Rightarrow> frame" where
  "msg message st = st\<lparr>messages := messages st @ [GetErrorLineString st @ message]\<rparr>"

text \<open>Writing through \<^verbatim>\<open>section_ptr\<close>: the entry it names is replaced by its update.\<close>

definition update_section :: "string \<Rightarrow> (Section \<Rightarrow> Section) \<Rightarrow> SectionDataHash \<Rightarrow> SectionDataHash" where
  "update_section name f sd = (case sd name of None \<Rightarrow> sd | Some sec \<Rightarrow> sd(name \<mapsto> f sec))"

definition PushInheritance :: "frame \<Rightarrow> frame" where
  "PushInheritance st =
     (case section_ptr st of
        None \<Rightarrow> st
      | Some name \<Rightarrow>
          (if inheritance_buf st \<noteq> [] then
             (if section_data st (inheritance_buf st) \<noteq> None
              then st\<lparr>section_data := update_section name
                        (\<lambda>sec. sec\<lparr>inheritances := inheritances sec @ [inheritance_buf st]\<rparr>)
                        (section_data st)\<rparr>
              else msg (''Inherited section '' @ [dq] @ inheritance_buf st @ [dq] @ '' is not exist!'') st)
             \<lparr>inheritance_buf := []\<rparr>
           else st))"

definition PushAttribute :: "frame \<Rightarrow> frame" where
  "PushAttribute st =
     (case section_ptr st of
        None \<Rightarrow> st
      | Some name \<Rightarrow>
          (if attribute_buf st \<noteq> [] then
             st\<lparr>section_data := update_section name
                   (\<lambda>sec. sec\<lparr>attributes := attributes sec @ [attribute_buf st]\<rparr>)
                   (section_data st),
                attribute_buf := []\<rparr>
           else st))"

text \<open>
  The nested call \<^verbatim>\<open>this->load(path)\<close> is a parameter of the character handlers: it maps
  the object to the object after the call, or to \<open>None\<close> when the call does not return.
\<close>

type_synonym loader = "string \<Rightarrow> CFGParser \<Rightarrow> CFGParser option"

definition IncludeFile :: "loader \<Rightarrow> string \<Rightarrow> frame \<Rightarrow> frame option" where
  "IncludeFile inc path st =
     (let file = current_file st in
      case inc (base_path st @ path) (object_of st) of
        None \<Rightarrow> None
      | Some p \<Rightarrow>
          Some (st\<lparr>section_data := section_data p, base_path := base_path p,
                   messages := messages p, current_file := file\<rparr>))"

subsection \<open>The cases of the switch on the character read\<close>

definition on_comment_character :: "char \<Rightarrow> frame \<Rightarrow> frame" where
  "on_comment_character c st =
     (case parse_action st of
        STRING_VALUE \<Rightarrow> st\<lparr>value_buf := value_buf st @ [c]\<rparr>
      | _ \<Rightarrow> st\<lparr>parse_action := COMMENT\<rparr>)"

definition on_comment_multiline :: "char \<Rightarrow> frame \<Rightarrow> frame" where
  "on_comment_multiline c st =
     (case parse_action st of
        STRING_VALUE \<Rightarrow> st\<lparr>value_buf := value_buf st @ [c]\<rparr>
      | MULTILINE_COMMENT \<Rightarrow> st\<lparr>parse_action := NEW_LINE\<rparr>
      | _ \<Rightarrow> st\<lparr>parse_action := MULTILINE_COMMENT\<rparr>)"

definition on_space :: "char \<Rightarrow> frame \<Rightarrow> frame" where
  "on_space c st =
     (case parse_action st of
        STRING_VALUE \<Rightarrow> st\<lparr>value_buf := value_buf st @ [c]\<rparr>
      | PREPROCESSOR \<Rightarrow>
          (if preprocessor_first st = ''include'' then st\<lparr>parse_action := INCLUDE\<rparr> else st)
          \<lparr>preprocessor_first := []\<rparr>
      | ATTRIBUTE \<Rightarrow>
          (if \<not> ignore_current_spaces st
           then msg ''Space in wrong place'' (st\<lparr>parse_action := ERROR\<rparr>) else st)
      | INHERITANCE \<Rightarrow>
          (if \<not> ignore_current_spaces st
           then msg ''Space in wrong place'' (st\<lparr>parse_action := ERROR\<rparr>) else st)
      | KEY \<Rightarrow>
          (if \<not> ignore_current_spaces st
           then msg ''Space in wrong place'' (st\<lparr>parse_action := ERROR\<rparr>) else st)
      | SECTION \<Rightarrow>
          (if \<not> ignore_current_spaces st
           then msg ''Space in wrong place'' (st\<lparr>parse_action := ERROR\<rparr>) else st)
      | VALUE \<Rightarrow>
          (if \<not> ignore_current_spaces st
           then msg ''Space in wrong place'' (st\<lparr>parse_action := ERROR\<rparr>) else st)
      | _ \<Rightarrow> st)"

text \<open>
  A backslash outside a string. Inside \<^verbatim>\<open>STRING_VALUE\<close> the handler reads one more character
  from the file; that case is \<open>on_escape\<close>, applied by the loop below to the character read
  (\<open>None\<close> at the end of the file), and the loop applies \<open>on_backslash\<close> in the other states
  only.
\<close>

definition on_backslash :: "frame \<Rightarrow> frame" where
  "on_backslash st =
     (case parse_action st of
        COMMENT \<Rightarrow> st
      | MULTILINE_COMMENT \<Rightarrow> st
      | _ \<Rightarrow> msg ''Unexpected escape-symbol'' (st\<lparr>parse_action := ERROR\<rparr>))"

definition on_escape :: "char option \<Rightarrow> frame \<Rightarrow> frame" where
  "on_escape e st =
     (if e = Some backslash then st\<lparr>value_buf := value_buf st @ [backslash]\<rparr>
      else if e = Some CHR ''n'' then st\<lparr>value_buf := value_buf st @ [newline]\<rparr>
      else if e = Some dq then st\<lparr>value_buf := value_buf st @ [dq]\<rparr>
      else if e = Some sq then st\<lparr>value_buf := value_buf st @ [sq]\<rparr>
      else msg ''Unknown escape-sequence symbol'' st)"

definition on_quote :: "frame \<Rightarrow> frame" where
  "on_quote st =
     (case parse_action st of
        STRING_VALUE \<Rightarrow> st\<lparr>parse_action := VALUE\<rparr>
      | VALUE \<Rightarrow> st\<lparr>parse_action := STRING_VALUE\<rparr>
      | _ \<Rightarrow> st)"

definition on_hash :: "char \<Rightarrow> frame \<Rightarrow> frame" where
  "on_hash c st =
     (case parse_action st of
        COMMENT \<Rightarrow> st
      | MULTILINE_COMMENT \<Rightarrow> st
      | NEW_LINE \<Rightarrow> st\<lparr>parse_action := PREPROCESSOR\<rparr>
      | STRING_VALUE \<Rightarrow> st\<lparr>value_buf := value_buf st @ [c]\<rparr>
      | _ \<Rightarrow> msg ''Preprocessor parse error'' (st\<lparr>parse_action := ERROR\<rparr>))"

definition commit_value :: "frame \<Rightarrow> frame" where
  "commit_value st =
     (case section_ptr st of
        None \<Rightarrow> st
      | Some name \<Rightarrow>
          st\<lparr>section_data := update_section name
                (\<lambda>sec. sec\<lparr>values_map := (values_map sec)(key_buf st \<mapsto> value_buf st)\<rparr>)
                (section_data st)\<rparr>)
     \<lparr>key_buf := [], value_buf := []\<rparr>"

definition on_newline :: "frame \<Rightarrow> frame" where
  "on_newline st =
     (let st1 =
        (case parse_action st of
           COMMENT \<Rightarrow> st
         | MULTILINE_COMMENT \<Rightarrow> st
         | INHERITANCE \<Rightarrow> PushInheritance st
         | PREPROCESSOR \<Rightarrow> st
         | INCLUDE \<Rightarrow> st
         | ATTRIBUTE \<Rightarrow> PushAttribute st
         | VALUE \<Rightarrow> commit_value st
         | VALUE_ARRAY \<Rightarrow> commit_value st
         | STRING_VALUE \<Rightarrow> st
         | NEW_LINE \<Rightarrow> st
         | SECTION \<Rightarrow> st\<lparr>parse_action := NEW_LINE\<rparr>
         | _ \<Rightarrow> msg ''New line parse error'' (st\<lparr>parse_action := ERROR\<rparr>));
          st2 =
        (if parse_action st1 \<noteq> STRING_VALUE \<and> parse_action st1 \<noteq> MULTILINE_COMMENT
         then st1\<lparr>parse_action := NEW_LINE, character_pos := 0\<rparr> else st1)
      in st2\<lparr>line := line st2 + 1, ignore_current_spaces := True\<rparr>)"

definition on_less :: "char \<Rightarrow> frame \<Rightarrow> frame" where
  "on_less c st =
     (case parse_action st of
        STRING_VALUE \<Rightarrow> st\<lparr>value_buf := value_buf st @ [c]\<rparr>
      | _ \<Rightarrow> st)"

definition on_greater :: "loader \<Rightarrow> char \<Rightarrow> frame \<Rightarrow> frame option" where
  "on_greater inc c st =
     (case parse_action st of
        STRING_VALUE \<Rightarrow> Some (st\<lparr>value_buf := value_buf st @ [c]\<rparr>)
      | INCLUDE \<Rightarrow>
          (case IncludeFile inc (preprocessor_second st) st of
             None \<Rightarrow> None
           | Some st1 \<Rightarrow> Some (st1\<lparr>preprocessor_second := []\<rparr>))
      | _ \<Rightarrow> Some st)"

definition on_open_bracket :: "char \<Rightarrow> frame \<Rightarrow> frame" where
  "on_open_bracket c st =
     (case parse_action st of
        COMMENT \<Rightarrow> st
      | MULTILINE_COMMENT \<Rightarrow> st
      | NEW_LINE \<Rightarrow>
          st\<lparr>ignore_current_spaces := False, parse_action := SECTION, section_buf := [],
             section_ptr := None\<rparr>
      | STRING_VALUE \<Rightarrow> st\<lparr>value_buf := value_buf st @ [c]\<rparr>
      | _ \<Rightarrow> msg ''Section naming parse error'' (st\<lparr>parse_action := ERROR\<rparr>))"

definition close_section :: "frame \<Rightarrow> frame" where
  "close_section st =
     (if section_data st (section_buf st) = None
      then st\<lparr>section_data := (section_data st)(section_buf st \<mapsto> empty_Section),
              section_ptr := Some (section_buf st)\<rparr>
      else msg (''Section '' @ [dq] @ section_buf st @ [dq] @ '' already exist.'') st)
     \<lparr>ignore_current_spaces := True\<rparr>"

definition on_close_bracket :: "char \<Rightarrow> frame \<Rightarrow> frame" where
  "on_close_bracket c st =
     (case parse_action st of
        COMMENT \<Rightarrow> st
      | MULTILINE_COMMENT \<Rightarrow> st
      | SECTION \<Rightarrow> close_section st
      | STRING_VALUE \<Rightarrow> st\<lparr>value_buf := value_buf st @ [c]\<rparr>
      | _ \<Rightarrow> msg ''Section naming parse error'' (st\<lparr>parse_action := ERROR\<rparr>))"

definition on_comma :: "char \<Rightarrow> frame \<Rightarrow> frame" where
  "on_comma c st =
     (case parse_action st of
        COMMENT \<Rightarrow> st
      | MULTILINE_COMMENT \<Rightarrow> st
      | INHERITANCE \<Rightarrow> PushInheritance st
      | ATTRIBUTE \<Rightarrow> PushAttribute st
      | STRING_VALUE \<Rightarrow> st\<lparr>value_buf := value_buf st @ [c]\<rparr>
      | VALUE_ARRAY \<Rightarrow> st\<lparr>value_buf := value_buf st @ [c]\<rparr>
      | VALUE \<Rightarrow> st\<lparr>parse_action := VALUE_ARRAY, value_buf := value_buf st @ [c]\<rparr>
      | _ \<Rightarrow> msg ''Enumeration error'' (st\<lparr>parse_action := ERROR\<rparr>))"

definition on_colon :: "char \<Rightarrow> frame \<Rightarrow> frame" where
  "on_colon c st =
     (case parse_action st of
        COMMENT \<Rightarrow> st
      | MULTILINE_COMMENT \<Rightarrow> st
      | SECTION \<Rightarrow> st\<lparr>parse_action := INHERITANCE\<rparr>
      | STRING_VALUE \<Rightarrow> st\<lparr>value_buf := value_buf st @ [c]\<rparr>
      | _ \<Rightarrow> msg ''Inheritance error'' (st\<lparr>parse_action := ERROR\<rparr>))"

text \<open>
  \<^verbatim>\<open>'='\<close> after a key: \<^verbatim>\<open>try_emplace(key, "")\<close> inserts the empty placeholder when the
  key is new and reports the key when it is already there.
\<close>

definition register_key :: "frame \<Rightarrow> frame" where
  "register_key st =
     (case section_ptr st of
        None \<Rightarrow> st
      | Some name \<Rightarrow>
          (case section_data st name of
             None \<Rightarrow> st
           | Some sec \<Rightarrow>
               (if values_map sec (key_buf st) = None
                then st\<lparr>section_data := (section_data st)
                          (name \<mapsto> sec\<lparr>values_map := (values_map sec)(key_buf st \<mapsto> [])\<rparr>)\<rparr>
                else msg (''Section '' @ [dq] @ section_buf st @ [dq] @ '' key '' @ [dq]
                            @ key_buf st @ [dq] @ '' already exist.'') st)))"

definition on_equals :: "char \<Rightarrow> frame \<Rightarrow> frame" where
  "on_equals c st =
     (case parse_action st of
        COMMENT \<Rightarrow> st
      | MULTILINE_COMMENT \<Rightarrow> st
      | SECTION \<Rightarrow> st\<lparr>parse_action := ATTRIBUTE\<rparr>
      | INHERITANCE \<Rightarrow> (PushInheritance st)\<lparr>parse_action := ATTRIBUTE\<rparr>
      | KEY \<Rightarrow> (register_key st)\<lparr>parse_action := VALUE\<rparr>
      | STRING_VALUE \<Rightarrow> st\<lparr>value_buf := value_buf st @ [c]\<rparr>
      | _ \<Rightarrow> msg ''Set value error'' (st\<lparr>parse_action := ERROR\<rparr>))"

definition on_default :: "char \<Rightarrow> frame \<Rightarrow> frame" where
  "on_default c st =
     (case parse_action st of
        COMMENT \<Rightarrow> st
      | MULTILINE_COMMENT \<Rightarrow> st
      | NEW_LINE \<Rightarrow> st\<lparr>parse_action := KEY, key_buf := key_buf st @ [c]\<rparr>
      | PREPROCESSOR \<Rightarrow> st\<lparr>preprocessor_first := preprocessor_first st @ [c]\<rparr>
      | INCLUDE \<Rightarrow> st\<lparr>preprocessor_second := preprocessor_second st @ [c]\<rparr>
      | SECTION \<Rightarrow> st\<lparr>section_buf := section_buf st @ [c]\<rparr>
      | INHERITANCE \<Rightarrow> st\<lparr>inheritance_buf := inheritance_buf st @ [c]\<rparr>
      | ATTRIBUTE \<Rightarrow> st\<lparr>attribute_buf := attribute_buf st @ [c]\<rparr>
      | KEY \<Rightarrow> st\<lparr>key_buf := key_buf st @ [c]\<rparr>
      | VALUE \<Rightarrow> st\<lparr>value_buf := value_buf st @ [c]\<rparr>
      | VALUE_ARRAY \<Rightarrow> st\<lparr>value_buf := value_buf st @ [c]\<rparr>
      | STRING_VALUE \<Rightarrow> st\<lparr>value_buf := value_buf st @ [c]\<rparr>
      | ERROR \<Rightarrow> msg ''Invalid character error'' (st\<lparr>parse_action := ERROR\<rparr>))"

text \<open>
  The switch itself, for every character but a backslash inside a string (which consumes the
  following character as well).
\<close>

definition switch_char :: "loader \<Rightarrow> char \<Rightarrow> frame \<Rightarrow> frame option" where
  "switch_char inc c st =
     (if c = CHR '';'' then Some (on_comment_character c st)
      else if c = CHR ''|'' then Some (on_comment_multiline c st)
      else if c = CHR '' '' \<or> c = tab then Some (on_space c st)
      else if c = backslash then Some (on_backslash st)
      else if c = dq then Some (on_quote st)
      else if c = CHR ''#'' then Some (on_hash c st)
      else if c = newline then Some (on_newline st)
      else if c = CHR ''<'' then Some (on_less c st)
      else if c = CHR ''>'' then on_greater inc c st
      else if c = CHR ''['' then Some (on_open_bracket c st)
      else if c = CHR '']'' then Some (on_close_bracket c st)
      else if c = CHR '','' then Some (on_comma c st)
      else if c = CHR '':'' then Some (on_colon c st)
      else if c = CHR ''='' then Some (on_equals c st)
      else Some (on_default c st))"

definition next_pos :: "frame \<Rightarrow> frame" where
  "next_pos st = st\<lparr>character_pos := character_pos st + 1\<rparr>"

text \<open>
  The \<^verbatim>\<open>while (!file.eof())\<close> loop over the characters left in the file. At the end of the
  file \<^verbatim>\<open>get()\<close> answers \<open>-1\<close>, which the loop turns into a last newline before it stops;
  when the escape handler itself hits the end, the loop stops without that newline.
\<close>

fun parse_loop :: "loader \<Rightarrow> string \<Rightarrow> frame \<Rightarrow> frame option" where
  "parse_loop inc [] st = map_option next_pos (switch_char inc newline st)"
| "parse_loop inc (c # cs) st =
     (if c = backslash \<and> parse_action st = STRING_VALUE then
        (case cs of
           [] \<Rightarrow> Some (next_pos (on_escape None st))
         | e # cs' \<Rightarrow> parse_loop inc cs' (next_pos (on_escape (Some e) st)))
      else
        (case switch_char inc c st of
           None \<Rightarrow> None
         | Some st1 \<Rightarrow> parse_loop inc cs (next_pos st1)))"

text \<open>
  \<^verbatim>\<open>load\<close>. The file system maps a path to the content of the file that opens there. The
  first argument bounds the depth of nested includes: \<open>None\<close> means the bound was too small
  (the source recurses without a bound and does not return on an include cycle).
\<close>

primrec load :: "nat \<Rightarrow> (string \<rightharpoonup> string) \<Rightarrow> string \<Rightarrow> CFGParser \<Rightarrow> CFGParser option" where
  "load 0 fs file_path p = None"
| "load (Suc n) fs file_path p =
     (let p1 = p\<lparr>current_file := file_path\<rparr> in
      case fs file_path of
        None \<Rightarrow> Some (p1\<lparr>messages := messages p1 @ [''Cannot open file '' @ [dq] @ file_path @ [dq] @ ''.'']\<rparr>)
      | Some content \<Rightarrow> map_option object_of (parse_loop (load n fs) content (init_frame p1)))"

section \<open>Typed accessors\<close>

datatype error = InvalidArgument | OutOfRange | OutOfBounds

text \<open>
  \<^verbatim>\<open>makeValueFromString<int>\<close> is \<^verbatim>\<open>std::stoi\<close>: leading white space is skipped, an optional
  sign and the longest run of decimal digits are read; no digit at all throws
  \<^verbatim>\<open>std::invalid_argument\<close>, a value outside \<^verbatim>\<open>int\<close> throws \<^verbatim>\<open>std::out_of_range\<close>.
\<close>

definition isspace_char :: "char \<Rightarrow> bool" where
  "isspace_char c = (c = CHR '' '' \<or> c = tab \<or> c = newline \<or> c = CHR 0x0B \<or> c = CHR 0x0C \<or> c = CHR 0x0D)"

definition isdigit_char :: "char \<Rightarrow> bool" where
  "isdigit_char c = (c \<in> set ''0123456789'')"

definition digit_value :: "char \<Rightarrow> int" where
  "digit_value c = int (of_char c) - 48"

definition stoi :: "string \<Rightarrow> error + int" where
  "stoi str =
     (let s1 = dropWhile isspace_char str;
          neg = (s1 \<noteq> [] \<and> hd s1 = CHR ''-'');
          s2 = (if s1 \<noteq> [] \<and> (hd s1 = CHR ''-'' \<or> hd s1 = CHR ''+'') then tl s1 else s1);
          ds = takeWhile isdigit_char s2
      in if ds = [] then Inl InvalidArgument
         else
           (let n = foldl (\<lambda>a d. 10 * a + digit_value d) 0 ds;
                v = (if neg then - n else n)
            in if v < - (2 ^ 31) \<or> 2 ^ 31 - 1 < v then Inl OutOfRange else Inr v))"

text \<open>
  \<^verbatim>\<open>getArray<int>\<close>: the loop over the characters of the raw value, with the vector built so
  far and the text of the current element; a conversion that throws ends the call.
\<close>

fun getArray_loop :: "string \<Rightarrow> int list \<Rightarrow> string \<Rightarrow> error + int list" where
  "getArray_loop [] result num_str =
     (case stoi num_str of Inl e \<Rightarrow> Inl e | Inr v \<Rightarrow> Inr (result @ [v]))"
| "getArray_loop (c # cs) result num_str =
     (if c = CHR '','' then
        (case stoi num_str of
           Inl e \<Rightarrow> Inl e
         | Inr v \<Rightarrow> getArray_loop cs (result @ [v]) [])
      else getArray_loop cs result (num_str @ [c]))"

definition getArray :: "SectionDataHash \<Rightarrow> string \<Rightarrow> string \<Rightarrow> error + int list" where
  "getArray sd s k =
     (let str = getString sd s k [] in
      if str \<noteq> [] then getArray_loop str [] [] else Inr [])"

text \<open>
  \<^verbatim>\<open>operator[]\<close> of \<^verbatim>\<open>std::vector\<close> does not check its index: reading at or past
  \<^verbatim>\<open>size()\<close> is undefined behaviour, which the model reports as \<open>OutOfBounds\<close>.
\<close>

definition vector_at :: "'a list \<Rightarrow> nat \<Rightarrow> error + 'a" where
  "vector_at vec i = (if i < length vec then Inr (vec ! i) else Inl OutOfBounds)"

record vec2 =
  v2x :: int
  v2y :: int

record vec3 =
  v3x :: int
  v3y :: int
  v3z :: int

record vec4 =
  v4x :: int
  v4y :: int
  v4z :: int
  v4w :: int

definition cannot_find :: "string \<Rightarrow> string \<Rightarrow> string" where
  "cannot_find s k = ''Cannot find '' @ [dq] @ s @ '':'' @ k @ [dq] @ ''. Default value will be return...''"

definition getVec2 :: "CFGParser \<Rightarrow> string \<Rightarrow> string \<Rightarrow> vec2 \<Rightarrow> error + (vec2 \<times> CFGParser)" where
  "getVec2 p s k default_value =
     (case getArray (section_data p) s k of
        Inl e \<Rightarrow> Inl e
      | Inr vec \<Rightarrow>
          (if vec \<noteq> [] then
             (case vector_at vec 0 of Inl e \<Rightarrow> Inl e | Inr a \<Rightarrow>
              case vector_at vec 1 of Inl e \<Rightarrow> Inl e | Inr b \<Rightarrow>
                Inr (\<lparr>v2x = a, v2y = b\<rparr>, p))
           else Inr (default_value, p\<lparr>messages := messages p @ [cannot_find s k]\<rparr>)))"

definition getVec3 :: "CFGParser \<Rightarrow> string \<Rightarrow> string \<Rightarrow> vec3 \<Rightarrow> error + (vec3 \<times> CFGParser)" where
  "getVec3 p s k default_value =
     (case getArray (section_data p) s k of
        Inl e \<Rightarrow> Inl e
      | Inr vec \<Rightarrow>
          (if vec \<noteq> [] then
             (case vector_at vec 0 of Inl e \<Rightarrow> Inl e | Inr a \<Rightarrow>
              case vector_at vec 1 of Inl e \<Rightarrow> Inl e | Inr b \<Rightarrow>
              case vector_at vec 2 of Inl e \<Rightarrow> Inl e | Inr c \<Rightarrow>
                Inr (\<lparr>v3x = a, v3y = b, v3z = c\<rparr>, p))
           else Inr (default_value, p\<lparr>messages := messages p @ [cannot_find s k]\<rparr>)))"

definition getVec4 :: "CFGParser \<Rightarrow> string \<Rightarrow> string \<Rightarrow> vec4 \<Rightarrow> error + (vec4 \<times> CFGParser)" where
  "getVec4 p s k default_value =
     (case getArray (section_data p) s k of
        Inl e \<Rightarrow> Inl e
      | Inr vec \<Rightarrow>
          (if vec \<noteq> [] then
             (case vector_at vec 0 of Inl e \<Rightarrow> Inl e | Inr a \<Rightarrow>
              case vector_at vec 1 of Inl e \<Rightarrow> Inl e | Inr b \<Rightarrow>
              case vector_at vec 2 of Inl e \<Rightarrow> Inl e | Inr c \<Rightarrow>
              case vector_at vec 3 of Inl e \<Rightarrow> Inl e | Inr d \<Rightarrow>
                Inr (\<lparr>v4x = a, v4y = b, v4z = c, v4w = d\<rparr>, p))
           else Inr (default_value, p\<lparr>messages := messages p @ [cannot_find s k]\<rparr>)))"

section \<open>Saving a document\<close>

text \<open>
  The loops of \<^verbatim>\<open>save\<close> that write a vector of names: \<^verbatim>\<open>", "\<close> before every element but the
  first.
\<close>

primrec write_rest :: "string list \<Rightarrow> string" where
  "write_rest [] = []"
| "write_rest (x # xs) = '', '' @ x @ write_rest xs"

definition write_names :: "string list \<Rightarrow> string" where
  "write_names xs = (case xs of [] \<Rightarrow> [] | x # rest \<Rightarrow> x @ write_rest rest)"

text \<open>The line written for one entry of the map of values.\<close>

definition write_value :: "Section \<Rightarrow> string \<Rightarrow> string" where
  "write_value sec k =
     (case values_map sec k of None \<Rightarrow> [] | Some v \<Rightarrow> k @ '' = '' @ v @ [newline])"

text \<open>
  One iteration of the outer loop of \<^verbatim>\<open>save\<close>. The order in which the range-based loop visits
  the keys of the \<^verbatim>\<open>unordered_map\<close> of values is not specified; it is the parameter \<open>keys\<close>.
\<close>

definition save_section :: "string \<Rightarrow> Section \<Rightarrow> string list \<Rightarrow> string" where
  "save_section name sec keys =
     ''['' @ name @ '']''
     @ (if inheritances sec \<noteq> [] then '' : '' @ write_names (inheritances sec) else [])
     @ (if attributes sec \<noteq> [] then '' = '' @ write_names (attributes sec) else [])
     @ [newline]
     @ concat (map (write_value sec) keys)
     @ [newline]"

text \<open>
  \<^verbatim>\<open>save\<close>: the text written to the file. \<open>names\<close> is the order in which the outer loop visits
  the sections, \<open>keys_of\<close> gives for each section the order in which its keys are visited.
\<close>

definition save :: "string list \<Rightarrow> (string \<Rightarrow> string list) \<Rightarrow> SectionDataHash \<Rightarrow> string" where
  "save names keys_of sd =
     concat (map (\<lambda>name. case sd name of None \<Rightarrow> [] | Some sec \<Rightarrow> save_section name sec (keys_of name)) names)"

section \<open>Effects of one character on the document\<close>

text \<open>
  A write through \<^verbatim>\<open>section_ptr\<close>: the document is unchanged, or the entry the pointer names
  is replaced, its inheritance list kept or extended by the name of an existing section.
\<close>

definition section_write :: "SectionDataHash \<Rightarrow> string option \<Rightarrow> SectionDataHash \<Rightarrow> bool" where
  "section_write sd ptr sd' \<longleftrightarrow>
     sd' = sd \<or>
     (\<exists>name sec sec'. ptr = Some name \<and> sd name = Some sec \<and> sd' = sd(name \<mapsto> sec') \<and>
        (inheritances sec' = inheritances sec \<or>
         (\<exists>i. sd i \<noteq> None \<and> inheritances sec' = inheritances sec @ [i])))"

text \<open>The fields of the object and the pointer that only a header or an include changes.\<close>

definition same_context :: "frame \<Rightarrow> frame \<Rightarrow> bool" where
  "same_context st st' \<longleftrightarrow>
     base_path st' = base_path st \<and> current_file st' = current_file st \<and>
     section_ptr st' = section_ptr st"

text \<open>
  What a character handler other than an include may do to the document and the pointer:
  write through the pointer, reset the pointer, or add a new empty section and point to it.
\<close>

definition pure_effect :: "frame \<Rightarrow> frame \<Rightarrow> bool" where
  "pure_effect st st' \<longleftrightarrow>
     current_file st' = current_file st \<and> base_path st' = base_path st \<and>
     ((section_ptr st' = section_ptr st \<and>
       section_write (section_data st) (section_ptr st) (section_data st')) \<or>
      (section_ptr st' = None \<and> section_data st' = section_data st) \<or>
      (\<exists>name. section_data st name = None \<and>
         section_data st' = (section_data st)(name \<mapsto> empty_Section) \<and>
         section_ptr st' = Some name))"

text \<open>The effect of a closed include directive: the document after the nested call.\<close>

definition include_effect :: "loader \<Rightarrow> frame \<Rightarrow> frame \<Rightarrow> bool" where
  "include_effect inc st st' \<longleftrightarrow>
     (\<exists>p'. inc (base_path st @ preprocessor_second st) (object_of st) = Some p' \<and>
        section_data st' = section_data p' \<and> base_path st' = base_path p' \<and>
        current_file st' = current_file st \<and> section_ptr st' = section_ptr st)"

section \<open>Properties of documents and frames\<close>

text \<open>Every name in an inheritance list is the name of a section of the document.\<close>

definition refs_ok :: "SectionDataHash \<Rightarrow> bool" where
  "refs_ok sd \<longleftrightarrow> (\<forall>s sec. sd s = Some sec \<longrightarrow> set (inheritances sec) \<subseteq> dom sd)"

text \<open>The characters that have a case of their own in the switch; every other one is plain.\<close>

definition special_characters :: "char list" where
  "special_characters = '';| '' @ [tab, backslash, dq] @ ''#'' @ [newline] @ ''<>[],:=''"

definition plain_char :: "char \<Rightarrow> bool" where
  "plain_char c \<longleftrightarrow> c \<notin> set special_characters"

text \<open>A token of plain characters, and the characters of a raw value that is not quoted.\<close>

definition plain_name :: "string \<Rightarrow> bool" where
  "plain_name s \<longleftrightarrow> (\<forall>c\<in>set s. plain_char c)"

definition value_char :: "char \<Rightarrow> bool" where
  "value_char c \<longleftrightarrow> plain_char c \<or> c = CHR '',''"

text \<open>
  The loop started in \<open>st\<close> on a text that begins with \<open>cs\<close> reads \<open>cs\<close> and goes on in \<open>st2\<close>.
\<close>

definition consumes :: "loader \<Rightarrow> string \<Rightarrow> frame \<Rightarrow> frame \<Rightarrow> bool" where
  "consumes inc cs st st2 \<longleftrightarrow> (\<forall>rest. parse_loop inc (cs @ rest) st = parse_loop inc rest st2)"

text \<open>
  The frame between two lines of a well-formed file: state \<^verbatim>\<open>NEW_LINE\<close>, leading spaces
  ignored, and no text pending in the key, value, inheritance and attribute buffers.
\<close>

definition line_start :: "frame \<Rightarrow> bool" where
  "line_start st \<longleftrightarrow>
     parse_action st = NEW_LINE \<and> ignore_current_spaces st \<and> key_buf st = [] \<and>
     value_buf st = [] \<and> inheritance_buf st = [] \<and> attribute_buf st = []"

text \<open>
  The frame after the header \<^verbatim>\<open>[X]\<close> of a section that exists already, read from \<open>st\<close>: the
  pointer is null, the message is positioned at the closing bracket.
\<close>

definition duplicate_header_frame :: "string \<Rightarrow> frame \<Rightarrow> frame" where
  "duplicate_header_frame X st =
     st\<lparr>ignore_current_spaces := True, parse_action := SECTION, section_buf := X,
        section_ptr := None,
        messages := messages st @
          [GetErrorLineString (st\<lparr>character_pos := character_pos st + of_nat (length X) + 1\<rparr>)
             @ ''Section '' @ [dq] @ X @ [dq] @ '' already exist.''],
        character_pos := character_pos st + of_nat (length X) + 2\<rparr>"

text \<open>
  A section whose tokens the writer can put out as they are: inheritance and attribute
  names and keys are non-empty and plain, raw values consist of plain characters and commas.
\<close>

definition writable_section :: "Section \<Rightarrow> bool" where
  "writable_section sec \<longleftrightarrow>
     (\<forall>x\<in>set (inheritances sec). x \<noteq> [] \<and> plain_name x) \<and>
     (\<forall>x\<in>set (attributes sec). x \<noteq> [] \<and> plain_name x) \<and>
     (\<forall>k v. values_map sec k = Some v \<longrightarrow> k \<noteq> [] \<and> plain_name k \<and> (\<forall>c\<in>set v. value_char c))"

text \<open>A document all of whose section names are plain and all of whose sections are writable.\<close>

definition writable :: "SectionDataHash \<Rightarrow> bool" where
  "writable sd \<longleftrightarrow> (\<forall>n sec. sd n = Some sec \<longrightarrow> plain_name n \<and> writable_section sec)"

text \<open>
  \<open>names\<close> and \<open>keys_of\<close> are orders in which the loops of \<^verbatim>\<open>save\<close> can visit the document:
  every section once, and every key of a section once.
\<close>

definition visits :: "string list \<Rightarrow> (string \<Rightarrow> string list) \<Rightarrow> SectionDataHash \<Rightarrow> bool" where
  "visits names keys_of sd \<longleftrightarrow>
     distinct names \<and> set names = dom sd \<and>
     (\<forall>n sec. sd n = Some sec \<longrightarrow>
        distinct (keys_of n) \<and> set (keys_of n) = dom (values_map sec))"

text \<open>
  Every section is visited after the sections it inherits from (a section may name itself):
  \<open>known\<close> are the names written so far.
\<close>

fun bases_first :: "string set \<Rightarrow> string list \<Rightarrow> SectionDataHash \<Rightarrow> bool" where
  "bases_first known [] sd = True"
| "bases_first known (n # ns) sd =
     ((case sd n of None \<Rightarrow> True | Some sec \<Rightarrow> set (inheritances sec) \<subseteq> insert n known) \<and>
      bases_first (insert n known) ns sd)"

text \<open>
  The document read from the text that \<^verbatim>\<open>save\<close> writes in the order \<open>names\<close>, into a
  document whose section names are \<open>known\<close>: every section keeps, of its inheritance names,
  its own name, the known names and the names of the sections written before it.
\<close>

definition read_back :: "string set \<Rightarrow> string list \<Rightarrow> SectionDataHash \<Rightarrow> SectionDataHash" where
  "read_back known names sd =
     (\<lambda>n. if n \<in> set names then
            map_option
              (\<lambda>sec. sec\<lparr>inheritances :=
                 filter (\<lambda>b. b = n \<or> b \<in> known \<or> b \<in> set (takeWhile (\<lambda>m. m \<noteq> n) names))
                   (inheritances sec)\<rparr>) (sd n)
          else None)"

section \<open>Example documents, files and frames\<close>

text \<open>
  The object after the default constructor, an object holding a given document, and a file
  system with one file. The documents, texts and frames below are the concrete inputs of the
  theorems.
\<close>

definition new_parser :: CFGParser where
  "new_parser = \<lparr>section_data = Map.empty, current_file = [], base_path = [], messages = []\<rparr>"

definition parser_with :: "SectionDataHash \<Rightarrow> CFGParser" where
  "parser_with sd = new_parser\<lparr>section_data := sd\<rparr>"

definition file_system :: "string \<Rightarrow> string \<Rightarrow> (string \<rightharpoonup> string)" where
  "file_system path content = [path \<mapsto> content]"

definition doc_empty_base :: SectionDataHash where
  "doc_empty_base =
     [''B'' \<mapsto> \<lparr>inheritances = [], attributes = [], values_map = [''k'' \<mapsto> []]\<rparr>,
      ''A'' \<mapsto> \<lparr>inheritances = [''B''], attributes = [], values_map = Map.empty\<rparr>]"

definition doc_two_bases :: SectionDataHash where
  "doc_two_bases =
     [''B'' \<mapsto> \<lparr>inheritances = [], attributes = [], values_map = [''k'' \<mapsto> ''1'']\<rparr>,
      ''C'' \<mapsto> \<lparr>inheritances = [], attributes = [], values_map = [''k'' \<mapsto> ''2'']\<rparr>,
      ''A'' \<mapsto> \<lparr>inheritances = [''B'', ''C''], attributes = [], values_map = Map.empty\<rparr>]"

definition doc_chain :: SectionDataHash where
  "doc_chain =
     [''C'' \<mapsto> \<lparr>inheritances = [], attributes = [], values_map = [''j'' \<mapsto> ''9'']\<rparr>,
      ''B'' \<mapsto> \<lparr>inheritances = [''C''], attributes = [], values_map = Map.empty\<rparr>,
      ''A'' \<mapsto> \<lparr>inheritances = [''B''], attributes = [], values_map = Map.empty\<rparr>]"

definition doc_short_arrays :: SectionDataHash where
  "doc_short_arrays =
     [''s'' \<mapsto> \<lparr>inheritances = [], attributes = [],
                values_map = [''one'' \<mapsto> ''1'', ''two'' \<mapsto> ''1,2'', ''three'' \<mapsto> ''1,2,3'']\<rparr>]"

definition doc_spaced_value :: SectionDataHash where
  "doc_spaced_value =
     [''s'' \<mapsto> \<lparr>inheritances = [], attributes = [], values_map = [''k'' \<mapsto> ''a b'']\<rparr>]"

definition doc_self_base :: SectionDataHash where
  "doc_self_base =
     [''s'' \<mapsto> \<lparr>inheritances = [''s''], attributes = [''f''], values_map = [''k'' \<mapsto> ''1,2'']\<rparr>]"

definition keys_k :: "string \<Rightarrow> string list" where
  "keys_k name = [''k'']"

definition keys_two_bases :: "string \<Rightarrow> string list" where
  "keys_two_bases n = (if n = ''A'' then [] else [''k''])"

definition text_duplicate_key :: string where
  "text_duplicate_key = ''[s]'' @ [newline] @ ''k = 1'' @ [newline] @ ''k = 2'' @ [newline]"

definition text_bar_in_comment :: string where
  "text_bar_in_comment = '';a|b'' @ [newline] @ ''[s]'' @ [newline] @ ''k=1'' @ [newline]"

definition text_plain_comment :: string where
  "text_plain_comment = '';ab'' @ [newline] @ ''[s]'' @ [newline] @ ''k=1'' @ [newline]"

definition text_forward_reference :: string where
  "text_forward_reference = ''[c] : p'' @ [newline] @ ''[p]'' @ [newline] @ ''[d] : p'' @ [newline]"

definition text_rejected_reference :: string where
  "text_rejected_reference = ''[a]'' @ [newline] @ ''[a] : zzz'' @ [newline]"

definition text_second_declaration :: string where
  "text_second_declaration = ''[X]'' @ [newline] @ ''k=2'' @ [newline] @ ''j=3''"

definition text_duplicate_with_attribute :: string where
  "text_duplicate_with_attribute =
     ''[a]'' @ [newline] @ ''[a] = x'' @ [newline] @ ''[c] = y'' @ [newline]"

definition text_duplicate_with_inheritance :: string where
  "text_duplicate_with_inheritance =
     ''[a]'' @ [newline] @ ''[a] : b'' @ [newline] @ ''[c] : a'' @ [newline]"

definition text_quoted_value :: string where
  "text_quoted_value = ''[s]'' @ [newline] @ ''k = '' @ [dq] @ ''a b'' @ [dq] @ [newline]"

definition text_spaced_key :: string where
  "text_spaced_key = ''[s]'' @ [newline] @ ''k v = 1 2'' @ [newline]"


definition frame_mid_section :: frame where
  "frame_mid_section =
     (init_frame new_parser)\<lparr>parse_action := SECTION, ignore_current_spaces := False,
        section_buf := ''a'', character_pos := 2\<rparr>"

definition frame_in_string :: frame where
  "frame_in_string =
     (init_frame new_parser)\<lparr>parse_action := STRING_VALUE, key_buf := ''k'', value_buf := ''a'',
        character_pos := 4\<rparr>"

definition frame_in_key :: frame where
  "frame_in_key =
     (init_frame (parser_with [''s'' \<mapsto> empty_Section]))\<lparr>parse_action := KEY, key_buf := ''k'',
        section_buf := ''s'', section_ptr := Some ''s'', line := 2, character_pos := 2\<rparr>"


definition frame_pending_reference :: frame where
  "frame_pending_reference =
     (init_frame (parser_with [''c'' \<mapsto> empty_Section]))\<lparr>parse_action := INHERITANCE,
        section_buf := ''c'', inheritance_buf := ''p'', section_ptr := Some ''c'',
        character_pos := 7\<rparr>"

definition frame_rejected_reference :: frame where
  "frame_rejected_reference =
     (init_frame (parser_with [''a'' \<mapsto> empty_Section]))\<lparr>parse_action := INHERITANCE,
        section_buf := ''a'', inheritance_buf := ''zzz'', line := 2, character_pos := 10\<rparr>"

definition first_X :: Section where
  "first_X = \<lparr>inheritances = [], attributes = [], values_map = [''k'' \<mapsto> ''1'']\<rparr>"

definition frame_after_first :: frame where
  "frame_after_first =
     (init_frame (parser_with [''X'' \<mapsto> first_X]))\<lparr>section_buf := ''X'',
        section_ptr := Some ''X'', line := 3, character_pos := 1\<rparr>"

definition frame_inert_key :: frame where
  "frame_inert_key = (duplicate_header_frame ''X'' frame_after_first)\<lparr>parse_action := KEY, key_buf := ''j''\<rparr>"

section \<open>Value resolution\<close>

text \<open>Bases that do not hold the key are passed over by the loop.\<close>

lemma inheritance_loop_skip:
  "(\<forall>i\<in>set pre. \<forall>bs. sd i = Some bs \<longrightarrow> values_map bs k = None) \<Longrightarrow>
   inheritance_loop sd (pre @ rest) k = inheritance_loop sd rest k"
  by (induction pre) (auto split: option.splits)

text \<open>The loop reads the value maps of the bases and nothing else of them.\<close>

lemma inheritance_loop_values_only:
  assumes "\<forall>n. map_option values_map (sd' n) = map_option values_map (sd n)"
  shows "inheritance_loop sd' bases k = inheritance_loop sd bases k"
proof (induction bases)
  case Nil
  show ?case by simp
next
  case (Cons i rest)
  from assms have "map_option values_map (sd' i) = map_option values_map (sd i)" by blast
  with Cons show ?case by (cases "sd i"; cases "sd' i") (auto split: option.splits)
qed

text \<open>
  C1 (as amended). \<^verbatim>\<open>getString(s, k, d)\<close>: a missing section gives \<open>d\<close>; the section's own
  value for \<open>k\<close> is returned when present; otherwise the first base in declared order that
  exists and defines \<open>k\<close> decides: its value is returned when it is not empty, and \<open>d\<close> is
  returned when it is empty; when no base defines \<open>k\<close> the result is \<open>d\<close>. Only one level is
  consulted: the result is the same in every document that agrees on all value maps and on the
  inheritance list of \<open>s\<close>, whatever the inheritance lists of the other sections are.
\<close>

theorem getString_resolution:
  "(sd s = None \<longrightarrow> getString sd s k d = d) \<and>
   (\<forall>sec. sd s = Some sec \<longrightarrow>
      (\<forall>v. values_map sec k = Some v \<longrightarrow> getString sd s k d = v) \<and>
      (values_map sec k = None \<longrightarrow>
         (\<forall>pre b post bsec v.
            inheritances sec = pre @ b # post \<and>
            (\<forall>i\<in>set pre. \<forall>bs. sd i = Some bs \<longrightarrow> values_map bs k = None) \<and>
            sd b = Some bsec \<and> values_map bsec k = Some v \<longrightarrow>
            getString sd s k d = (if v = [] then d else v)) \<and>
         ((\<forall>i\<in>set (inheritances sec). \<forall>bs. sd i = Some bs \<longrightarrow> values_map bs k = None) \<longrightarrow>
            getString sd s k d = d))) \<and>
   (\<forall>sd'. (\<forall>n. map_option values_map (sd' n) = map_option values_map (sd n)) \<and>
          map_option inheritances (sd' s) = map_option inheritances (sd s) \<longrightarrow>
          getString sd' s k d = getString sd s k d)"
proof (intro conjI allI impI)
  assume "sd s = None"
  then show "getString sd s k d = d" by (simp add: getString_def)
next
  fix sec v
  assume "sd s = Some sec" "values_map sec k = Some v"
  then show "getString sd s k d = v" by (simp add: getString_def)
next
  fix sec pre b post bsec v
  assume sec: "sd s = Some sec" and own: "values_map sec k = None"
    and h: "inheritances sec = pre @ b # post \<and>
            (\<forall>i\<in>set pre. \<forall>bs. sd i = Some bs \<longrightarrow> values_map bs k = None) \<and>
            sd b = Some bsec \<and> values_map bsec k = Some v"
  from h have "inheritance_loop sd (inheritances sec) k = inheritance_loop sd (b # post) k"
    by (simp add: inheritance_loop_skip)
  also from h have "\<dots> = v" by simp
  finally show "getString sd s k d = (if v = [] then d else v)"
    using sec own by (simp add: getString_def getValueFromInheritance_def)
next
  fix sec
  assume sec: "sd s = Some sec" and own: "values_map sec k = None"
    and h: "\<forall>i\<in>set (inheritances sec). \<forall>bs. sd i = Some bs \<longrightarrow> values_map bs k = None"
  from h have "inheritance_loop sd (inheritances sec @ []) k = inheritance_loop sd [] k"
    by (rule inheritance_loop_skip)
  then show "getString sd s k d = d"
    using sec own by (simp add: getString_def getValueFromInheritance_def)
next
  fix sd' :: SectionDataHash
  assume h: "(\<forall>n. map_option values_map (sd' n) = map_option values_map (sd n)) \<and>
          map_option inheritances (sd' s) = map_option inheritances (sd s)"
  then have loop: "\<And>bases. inheritance_loop sd' bases k = inheritance_loop sd bases k"
    by (simp add: inheritance_loop_values_only)
  from h have v: "map_option values_map (sd' s) = map_option values_map (sd s)" by blast
  from h have i: "map_option inheritances (sd' s) = map_option inheritances (sd s)" by blast
  show "getString sd' s k d = getString sd s k d"
    using v i loop by (cases "sd s"; cases "sd' s") (auto simp: getString_def getValueFromInheritance_def split: option.splits)
qed

text \<open>
  C1 as stated fails: section \<open>A\<close> has no own \<open>k\<close> and inherits \<open>B\<close>, which defines \<open>k\<close> with the
  empty value; the lookup answers the default \<open>d\<close>, not the value stored in \<open>B\<close>.
\<close>

theorem getString_empty_inherited_counterexample:
  "values_map (the (doc_empty_base ''A'')) ''k'' = None \<and>
   inheritances (the (doc_empty_base ''A'')) = [''B''] \<and>
   values_map (the (doc_empty_base ''B'')) ''k'' = Some [] \<and>
   getString doc_empty_base ''A'' ''k'' ''d'' = ''d'' \<and>
   getString doc_empty_base ''A'' ''k'' ''d'' \<noteq> []"
  by (simp add: doc_empty_base_def getString_def getValueFromInheritance_def)

text \<open>
  The resolution rule at a document where \<open>A\<close> inherits \<open>B\<close> then \<open>C\<close> and both define \<open>k\<close>,
  and at a chain: \<open>A\<close> inherits \<open>B\<close>, which inherits \<open>C\<close>, which alone defines \<open>j\<close>; the lookup in
  \<open>B\<close> finds \<open>j\<close>, the lookup in \<open>A\<close> does not.
\<close>

theorem getString_resolution_witness:
  "getString doc_two_bases ''A'' ''k'' ''d'' = ''1'' \<and>
   getString doc_two_bases ''C'' ''k'' ''d'' = ''2'' \<and>
   getString doc_two_bases ''B'' ''j'' ''d'' = ''d'' \<and>
   getString doc_two_bases ''Z'' ''k'' ''d'' = ''d'' \<and>
   getString doc_chain ''B'' ''j'' ''d'' = ''9'' \<and>
   getString doc_chain ''A'' ''j'' ''d'' = ''d''"
proof -
  note A = getString_resolution [of doc_two_bases "''A''" "''k''" "''d''"]
  from A have inherited:
    "\<And>sec pre b post bsec v.
       doc_two_bases ''A'' = Some sec \<Longrightarrow> values_map sec ''k'' = None \<Longrightarrow>
       inheritances sec = pre @ b # post \<Longrightarrow>
       (\<forall>i\<in>set pre. \<forall>bs. doc_two_bases i = Some bs \<longrightarrow> values_map bs ''k'' = None) \<Longrightarrow>
       doc_two_bases b = Some bsec \<Longrightarrow> values_map bsec ''k'' = Some v \<Longrightarrow>
       getString doc_two_bases ''A'' ''k'' ''d'' = (if v = [] then ''d'' else v)"
    by blast
  have "getString doc_two_bases ''A'' ''k'' ''d'' = (if ''1'' = [] then ''d'' else ''1'')"
    by (rule inherited [where pre = "[]" and b = "''B''" and post = "[''C'']"])
       (simp add: doc_two_bases_def)+
  moreover have "getString doc_two_bases ''C'' ''k'' ''d'' = ''2''"
    using getString_resolution [of doc_two_bases "''C''" "''k''" "''d''"]
    by (simp add: doc_two_bases_def)
  moreover have "getString doc_two_bases ''B'' ''j'' ''d'' = ''d''"
    using getString_resolution [of doc_two_bases "''B''" "''j''" "''d''"]
    by (simp add: doc_two_bases_def)
  moreover have "getString doc_two_bases ''Z'' ''k'' ''d'' = ''d''"
    using getString_resolution [of doc_two_bases "''Z''" "''k''" "''d''"]
    by (simp add: doc_two_bases_def)
  moreover have "getString doc_chain ''B'' ''j'' ''d'' = ''9''"
  proof -
    from getString_resolution [of doc_chain "''B''" "''j''" "''d''"] have chain:
      "\<And>sec pre b post bsec v.
         doc_chain ''B'' = Some sec \<Longrightarrow> values_map sec ''j'' = None \<Longrightarrow>
         inheritances sec = pre @ b # post \<Longrightarrow>
         (\<forall>i\<in>set pre. \<forall>bs. doc_chain i = Some bs \<longrightarrow> values_map bs ''j'' = None) \<Longrightarrow>
         doc_chain b = Some bsec \<Longrightarrow> values_map bsec ''j'' = Some v \<Longrightarrow>
         getString doc_chain ''B'' ''j'' ''d'' = (if v = [] then ''d'' else v)"
      by blast
    have "getString doc_chain ''B'' ''j'' ''d'' = (if ''9'' = [] then ''d'' else ''9'')"
      by (rule chain [where pre = "[]" and b = "''C''" and post = "[]"])
         (simp add: doc_chain_def)+
    then show ?thesis by simp
  qed
  moreover have "getString doc_chain ''A'' ''j'' ''d'' = ''d''"
    using getString_resolution [of doc_chain "''A''" "''j''" "''d''"]
    by (simp add: doc_chain_def)
  ultimately show ?thesis by simp
qed

section \<open>Overwriting a value\<close>

text \<open>
  C10. \<^verbatim>\<open>set\<close> only overwrites a key that exists: when the section is absent, or the section
  exists without the key, the document is unchanged and exactly one message goes to the sink;
  when the key exists its value is replaced; in every case the section names and the keys of
  every section stay as they were.
\<close>

theorem set_value_only_overwrites:
  "(section_data p s = None \<or> (\<exists>sec. section_data p s = Some sec \<and> values_map sec k = None) \<longrightarrow>
      section_data (set_value p s k v) = section_data p \<and>
      (\<exists>m. set_value p s k v = p\<lparr>messages := messages p @ [m]\<rparr>)) \<and>
   (\<forall>sec. section_data p s = Some sec \<and> values_map sec k \<noteq> None \<longrightarrow>
      set_value p s k v =
        p\<lparr>section_data := (section_data p)(s \<mapsto> sec\<lparr>values_map := (values_map sec)(k \<mapsto> to_string_int v)\<rparr>)\<rparr>) \<and>
   dom (section_data (set_value p s k v)) = dom (section_data p) \<and>
   (\<forall>n sec. section_data p n = Some sec \<longrightarrow>
      (\<exists>sec'. section_data (set_value p s k v) n = Some sec' \<and>
             dom (values_map sec') = dom (values_map sec)))"
  by (cases "section_data p s") (auto simp: set_value_def)

text \<open>The three cases of \<^verbatim>\<open>set\<close> at a concrete document.\<close>

theorem set_value_only_overwrites_witness:
  "section_data (set_value (parser_with doc_two_bases) ''Z'' ''k'' 5) = doc_two_bases \<and>
   section_data (set_value (parser_with doc_two_bases) ''A'' ''k'' 5) = doc_two_bases \<and>
   length (messages (set_value (parser_with doc_two_bases) ''Z'' ''k'' 5)) = 1 \<and>
   length (messages (set_value (parser_with doc_two_bases) ''A'' ''k'' 5)) = 1 \<and>
   getString (section_data (set_value (parser_with doc_two_bases) ''B'' ''k'' 5)) ''B'' ''k'' ''d'' = ''5''"
proof -
  have Z: "section_data (parser_with doc_two_bases) ''Z'' = None"
    by (simp add: parser_with_def doc_two_bases_def)
  have A: "\<exists>sec. section_data (parser_with doc_two_bases) ''A'' = Some sec \<and> values_map sec ''k'' = None"
    by (simp add: parser_with_def doc_two_bases_def)
  have B: "section_data (parser_with doc_two_bases) ''B'' =
             Some \<lparr>inheritances = [], attributes = [], values_map = [''k'' \<mapsto> ''1'']\<rparr> \<and>
           values_map \<lparr>inheritances = [], attributes = [], values_map = [''k'' \<mapsto> ''1'']\<rparr> ''k'' \<noteq> None"
    by (simp add: parser_with_def doc_two_bases_def)
  from Z set_value_only_overwrites [of "parser_with doc_two_bases" "''Z''" "''k''" 5]
  have "section_data (set_value (parser_with doc_two_bases) ''Z'' ''k'' 5) = doc_two_bases \<and>
        length (messages (set_value (parser_with doc_two_bases) ''Z'' ''k'' 5)) = 1"
    by (auto simp: parser_with_def new_parser_def)
  moreover from A set_value_only_overwrites [of "parser_with doc_two_bases" "''A''" "''k''" 5]
  have "section_data (set_value (parser_with doc_two_bases) ''A'' ''k'' 5) = doc_two_bases \<and>
        length (messages (set_value (parser_with doc_two_bases) ''A'' ''k'' 5)) = 1"
    by (auto simp: parser_with_def new_parser_def)
  moreover have "getString (section_data (set_value (parser_with doc_two_bases) ''B'' ''k'' 5)) ''B'' ''k'' ''d'' = ''5''"
  proof -
    from set_value_only_overwrites [of "parser_with doc_two_bases" "''B''" "''k''" 5]
    have R: "\<And>sec. section_data (parser_with doc_two_bases) ''B'' = Some sec \<and> values_map sec ''k'' \<noteq> None \<Longrightarrow>
          set_value (parser_with doc_two_bases) ''B'' ''k'' 5 =
          (parser_with doc_two_bases)\<lparr>section_data := (section_data (parser_with doc_two_bases))
             (''B'' \<mapsto> sec\<lparr>values_map := (values_map sec)(''k'' \<mapsto> to_string_int 5)\<rparr>)\<rparr>"
      by blast
    note R [OF B]
    then show ?thesis
      by (simp add: getString_def to_string_int_def to_string.simps [of 5])
  qed
  ultimately show ?thesis by simp
qed

section \<open>Vector accessors\<close>

lemmas accessor_defs = getArray_def getString_def stoi_def isspace_char_def isdigit_char_def
  digit_value_def vector_at_def

text \<open>
  C4. The vector accessors test only whether the array is empty. An array with one element
  makes \<^verbatim>\<open>getVec2\<close> read \<^verbatim>\<open>vec[1]\<close> past the end instead of returning the default; likewise
  two elements for \<^verbatim>\<open>getVec3\<close> and three for \<^verbatim>\<open>getVec4\<close>.
\<close>

theorem getVec_short_array_out_of_bounds:
  "getArray doc_short_arrays ''s'' ''one'' = Inr [1] \<and>
   getVec2 (parser_with doc_short_arrays) ''s'' ''one'' \<lparr>v2x = 7, v2y = 8\<rparr> = Inl OutOfBounds \<and>
   getArray doc_short_arrays ''s'' ''two'' = Inr [1, 2] \<and>
   getVec3 (parser_with doc_short_arrays) ''s'' ''two'' \<lparr>v3x = 7, v3y = 8, v3z = 9\<rparr> = Inl OutOfBounds \<and>
   getArray doc_short_arrays ''s'' ''three'' = Inr [1, 2, 3] \<and>
   getVec4 (parser_with doc_short_arrays) ''s'' ''three'' \<lparr>v4x = 7, v4y = 8, v4z = 9, v4w = 10\<rparr> =
     Inl OutOfBounds"
  by (simp add: getVec2_def getVec3_def getVec4_def accessor_defs doc_short_arrays_def
      parser_with_def new_parser_def)

section \<open>What one character does to the document\<close>

lemma section_write_refl [simp]: "section_write sd ptr sd"
  by (simp add: section_write_def)

lemma PushInheritance_effect:
  "same_context st (PushInheritance st) \<and>
   section_write (section_data st) (section_ptr st) (section_data (PushInheritance st))"
  by (auto simp: PushInheritance_def same_context_def section_write_def update_section_def msg_def
      split: option.splits)

lemma PushAttribute_effect:
  "same_context st (PushAttribute st) \<and>
   section_write (section_data st) (section_ptr st) (section_data (PushAttribute st))"
  by (auto simp: PushAttribute_def same_context_def section_write_def update_section_def
      split: option.splits)

lemma commit_value_effect:
  "same_context st (commit_value st) \<and>
   section_write (section_data st) (section_ptr st) (section_data (commit_value st))"
  by (auto simp: commit_value_def same_context_def section_write_def update_section_def
      split: option.splits)

lemma register_key_effect:
  "same_context st (register_key st) \<and>
   section_write (section_data st) (section_ptr st) (section_data (register_key st))"
  by (auto simp: register_key_def same_context_def section_write_def msg_def
      split: option.splits)

lemma pure_effect_same:
  "current_file st' = current_file st \<Longrightarrow> base_path st' = base_path st \<Longrightarrow>
   section_ptr st' = section_ptr st \<Longrightarrow> section_data st' = section_data st \<Longrightarrow>
   pure_effect st st'"
  by (simp add: pure_effect_def)

lemma pure_effect_write:
  "same_context st st' \<and> section_write (section_data st) (section_ptr st) (section_data st') \<Longrightarrow>
   pure_effect st st'"
  by (simp add: pure_effect_def same_context_def)

lemma pure_effect_on_comment_character: "pure_effect st (on_comment_character c st)"
  by (rule pure_effect_same) (simp_all add: on_comment_character_def split: ParseAction.splits)

lemma pure_effect_on_comment_multiline: "pure_effect st (on_comment_multiline c st)"
  by (rule pure_effect_same) (simp_all add: on_comment_multiline_def split: ParseAction.splits)

lemma pure_effect_on_space: "pure_effect st (on_space c st)"
  by (rule pure_effect_same) (simp_all add: on_space_def msg_def split: ParseAction.splits)

lemma pure_effect_on_backslash: "pure_effect st (on_backslash st)"
  by (rule pure_effect_same) (simp_all add: on_backslash_def msg_def split: ParseAction.splits)

lemma pure_effect_on_escape: "pure_effect st (on_escape e st)"
  by (rule pure_effect_same) (simp_all add: on_escape_def msg_def)

lemma pure_effect_next_pos: "pure_effect st (next_pos st)"
  by (rule pure_effect_same) (simp_all add: next_pos_def)

lemma pure_effect_on_quote: "pure_effect st (on_quote st)"
  by (rule pure_effect_same) (simp_all add: on_quote_def split: ParseAction.splits)

lemma pure_effect_on_hash: "pure_effect st (on_hash c st)"
  by (rule pure_effect_same) (simp_all add: on_hash_def msg_def split: ParseAction.splits)

lemma pure_effect_on_less: "pure_effect st (on_less c st)"
  by (rule pure_effect_same) (simp_all add: on_less_def split: ParseAction.splits)

lemma pure_effect_on_colon: "pure_effect st (on_colon c st)"
  by (rule pure_effect_same) (simp_all add: on_colon_def msg_def split: ParseAction.splits)

lemma pure_effect_on_default: "pure_effect st (on_default c st)"
  by (rule pure_effect_same) (simp_all add: on_default_def msg_def split: ParseAction.splits)

lemma pure_effect_on_open_bracket: "pure_effect st (on_open_bracket c st)"
  by (simp add: pure_effect_def on_open_bracket_def msg_def split: ParseAction.splits)

lemma pure_effect_close_section: "pure_effect st (close_section st)"
  by (auto simp: pure_effect_def close_section_def msg_def)

lemma pure_effect_on_close_bracket: "pure_effect st (on_close_bracket c st)"
  using pure_effect_close_section [of st]
  by (cases "parse_action st") (simp_all add: on_close_bracket_def msg_def pure_effect_def)

lemma pure_effect_on_comma: "pure_effect st (on_comma c st)"
  using PushInheritance_effect [of st] PushAttribute_effect [of st]
  by (cases "parse_action st")
     (simp_all add: on_comma_def msg_def pure_effect_def same_context_def)

lemma pure_effect_on_equals: "pure_effect st (on_equals c st)"
  using PushInheritance_effect [of st] register_key_effect [of st]
  by (cases "parse_action st")
     (simp_all add: on_equals_def msg_def pure_effect_def same_context_def)

lemma pure_effect_on_newline: "pure_effect st (on_newline st)"
  using PushInheritance_effect [of st] PushAttribute_effect [of st] commit_value_effect [of st]
  by (cases "parse_action st")
     (simp_all add: on_newline_def msg_def pure_effect_def same_context_def Let_def)

lemma on_greater_effect:
  "on_greater inc c st = Some st' \<Longrightarrow> pure_effect st st' \<or> include_effect inc st st'"
  by (cases "parse_action st")
     (auto simp: on_greater_def IncludeFile_def pure_effect_def include_effect_def
       split: option.splits)

lemma switch_char_effect:
  "switch_char inc c st = Some st' \<Longrightarrow> pure_effect st st' \<or> include_effect inc st st'"
  unfolding switch_char_def
  by (auto split: if_splits
      simp: pure_effect_on_comment_character pure_effect_on_comment_multiline pure_effect_on_space
        pure_effect_on_backslash pure_effect_on_quote pure_effect_on_hash pure_effect_on_less
        pure_effect_on_colon pure_effect_on_default pure_effect_on_open_bracket
        pure_effect_on_close_bracket pure_effect_on_comma pure_effect_on_equals
        pure_effect_on_newline
      dest: on_greater_effect)

text \<open>
  A property of a frame that every effect preserves holds after the loop, whatever the text.
\<close>

lemma parse_loop_preserves:
  assumes pure: "\<And>st st'. I st \<Longrightarrow> pure_effect st st' \<Longrightarrow> I st'"
      and incl: "\<And>st st'. I st \<Longrightarrow> include_effect inc st st' \<Longrightarrow> I st'"
  shows "I st \<Longrightarrow> parse_loop inc cs st = Some st' \<Longrightarrow> I st'"
proof (induction cs arbitrary: st rule: length_induct)
  case (1 cs)
  have step: "\<And>c st st1. I st \<Longrightarrow> switch_char inc c st = Some st1 \<Longrightarrow> I (next_pos st1)"
  proof -
    fix c st st1 assume i: "I st" and s: "switch_char inc c st = Some st1"
    from switch_char_effect [OF s] have "I st1"
    proof
      assume "pure_effect st st1" with i show ?thesis by (rule pure)
    next
      assume "include_effect inc st st1" with i show ?thesis by (rule incl)
    qed
    then show "I (next_pos st1)" using pure_effect_next_pos by (rule pure)
  qed
  have esc: "\<And>e st. I st \<Longrightarrow> I (next_pos (on_escape e st))"
  proof -
    fix e st assume "I st"
    then have "I (on_escape e st)" using pure_effect_on_escape by (rule pure)
    then show "I (next_pos (on_escape e st))" using pure_effect_next_pos by (rule pure)
  qed
  show ?case
  proof (cases cs)
    case Nil
    with "1.prems"(2) obtain st1 where "switch_char inc newline st = Some st1" "st' = next_pos st1"
      by auto
    with step "1.prems"(1) show ?thesis by blast
  next
    case (Cons c cs1)
    show ?thesis
    proof (cases "c = backslash \<and> parse_action st = STRING_VALUE")
      case True
      show ?thesis
      proof (cases cs1)
        case Nil
        with True Cons "1.prems"(2) have "st' = next_pos (on_escape None st)" by simp
        with esc "1.prems"(1) show ?thesis by blast
      next
        case (Cons e cs2)
        with True \<open>cs = c # cs1\<close> "1.prems"(2)
        have r: "parse_loop inc cs2 (next_pos (on_escape (Some e) st)) = Some st'" by simp
        have "length cs2 < length cs" using Cons \<open>cs = c # cs1\<close> by simp
        with "1.IH" esc [OF "1.prems"(1)] r show ?thesis by blast
      qed
    next
      case False
      with Cons "1.prems"(2) obtain st1 where s: "switch_char inc c st = Some st1"
        and r: "parse_loop inc cs1 (next_pos st1) = Some st'"
        by (auto split: option.splits)
      have "length cs1 < length cs" using Cons by simp
      with "1.IH" step [OF "1.prems"(1) s] r show ?thesis by blast
    qed
  qed
qed


section \<open>White space inside tokens\<close>

lemma to_string_digit: "n < 10 \<Longrightarrow> to_string n = [''0123456789'' ! n]"
  by (subst to_string.simps) simp

lemma flag_kept:
  "ignore_current_spaces (on_comment_character c st) = ignore_current_spaces st"
  "ignore_current_spaces (on_comment_multiline c st) = ignore_current_spaces st"
  "ignore_current_spaces (on_space c st) = ignore_current_spaces st"
  "ignore_current_spaces (on_backslash st) = ignore_current_spaces st"
  "ignore_current_spaces (on_escape e st) = ignore_current_spaces st"
  "ignore_current_spaces (on_quote st) = ignore_current_spaces st"
  "ignore_current_spaces (on_hash c st) = ignore_current_spaces st"
  "ignore_current_spaces (on_less c st) = ignore_current_spaces st"
  "ignore_current_spaces (on_comma c st) = ignore_current_spaces st"
  "ignore_current_spaces (on_colon c st) = ignore_current_spaces st"
  "ignore_current_spaces (on_equals c st) = ignore_current_spaces st"
  "ignore_current_spaces (on_default c st) = ignore_current_spaces st"
  by (simp_all add: on_comment_character_def on_comment_multiline_def on_space_def
      on_backslash_def on_escape_def on_quote_def on_hash_def on_less_def on_comma_def
      on_colon_def on_equals_def on_default_def msg_def PushInheritance_def PushAttribute_def
      register_key_def update_section_def
      split: ParseAction.splits option.splits)

lemma flag_set_or_kept:
  "ignore_current_spaces st \<Longrightarrow> ignore_current_spaces (on_newline st)"
  "ignore_current_spaces st \<Longrightarrow> ignore_current_spaces (on_close_bracket c st)"
  "ignore_current_spaces st \<Longrightarrow> on_greater inc c st = Some st' \<Longrightarrow> ignore_current_spaces st'"
  "ignore_current_spaces st \<Longrightarrow> parse_action st \<noteq> NEW_LINE \<Longrightarrow>
   ignore_current_spaces (on_open_bracket c st)"
  by (auto simp: on_newline_def on_close_bracket_def close_section_def on_greater_def
      IncludeFile_def on_open_bracket_def msg_def Let_def
      split: ParseAction.splits option.splits)

lemma flag_cleared_only_by_open_bracket:
  assumes "switch_char inc c st = Some st'" and "ignore_current_spaces st"
    and "\<not> ignore_current_spaces st'"
  shows "c = CHR ''['' \<and> parse_action st = NEW_LINE"
proof (rule ccontr)
  assume n: "\<not> (c = CHR ''['' \<and> parse_action st = NEW_LINE)"
  from assms(1,2) n have "ignore_current_spaces st'"
    unfolding switch_char_def
    by (auto split: if_splits simp: flag_kept flag_set_or_kept)
  with assms(3) show False by simp
qed

text \<open>
  C2 as stated fails. In the file \<^verbatim>\<open>[s]\<close>, \<^verbatim>\<open>k v = 1 2\<close> the space between \<^verbatim>\<open>k\<close> and \<^verbatim>\<open>v\<close> is
  read in state \<^verbatim>\<open>KEY\<close> and the space between \<^verbatim>\<open>1\<close> and \<^verbatim>\<open>2\<close> in state \<^verbatim>\<open>VALUE\<close>; the
  flag is set on that line, both spaces are dropped, the key \<open>kv\<close> gets the value \<open>12\<close> and no
  message is logged.
\<close>

theorem space_in_key_dropped_counterexample:
  "\<not> Option.is_none (load 1 (file_system ''f'' text_spaced_key) ''f'' new_parser) \<and>
   getString (section_data (the (load 1 (file_system ''f'' text_spaced_key) ''f'' new_parser)))
     ''s'' ''kv'' ''d'' = ''12'' \<and>
   getString (section_data (the (load 1 (file_system ''f'' text_spaced_key) ''f'' new_parser)))
     ''s'' ''k'' ''d'' = ''d'' \<and>
   messages (the (load 1 (file_system ''f'' text_spaced_key) ''f'' new_parser)) = []"
  by code_simp

text \<open>
  C2, amended. A space or tab read in state \<^verbatim>\<open>SECTION\<close>, \<^verbatim>\<open>INHERITANCE\<close>, \<^verbatim>\<open>ATTRIBUTE\<close>,
  \<^verbatim>\<open>KEY\<close> or \<^verbatim>\<open>VALUE\<close> reports "Space in wrong place" and moves to \<^verbatim>\<open>ERROR\<close> while the
  ignore-leading-spaces flag is cleared, and leaves the frame as it is while the flag is set;
  inside \<^verbatim>\<open>STRING_VALUE\<close> it is appended to the value. A parse starts with the flag set. No
  step of the loop clears the flag except a \<^verbatim>\<open>[\<close> read in state \<^verbatim>\<open>NEW_LINE\<close>, which does clear
  it: neither a character handled by the switch (a nested include among them), nor the escape
  handler, nor the character counter. Every newline sets the flag again, and so does the \<^verbatim>\<open>]\<close>
  that closes a section name.
\<close>

theorem space_in_token:
  "(c = CHR '' '' \<or> c = tab \<longrightarrow>
      (parse_action st \<in> {SECTION, INHERITANCE, ATTRIBUTE, KEY, VALUE} \<and>
       \<not> ignore_current_spaces st \<longrightarrow>
         switch_char inc c st =
           Some (st\<lparr>parse_action := ERROR,
                    messages := messages st @ [GetErrorLineString st @ ''Space in wrong place'']\<rparr>)) \<and>
      (parse_action st \<in> {SECTION, INHERITANCE, ATTRIBUTE, KEY, VALUE} \<and>
       ignore_current_spaces st \<longrightarrow>
         switch_char inc c st = Some st) \<and>
      (parse_action st = STRING_VALUE \<longrightarrow>
         switch_char inc c st = Some (st\<lparr>value_buf := value_buf st @ [c]\<rparr>))) \<and>
   ignore_current_spaces (init_frame p) \<and>
   (ignore_current_spaces st \<and> switch_char inc c st = Some st1 \<and> \<not> ignore_current_spaces st1 \<longrightarrow>
      c = CHR ''['' \<and> parse_action st = NEW_LINE) \<and>
   ignore_current_spaces (on_escape e st) = ignore_current_spaces st \<and>
   ignore_current_spaces (next_pos st) = ignore_current_spaces st \<and>
   (parse_action st = NEW_LINE \<longrightarrow>
      switch_char inc CHR ''['' st =
        Some (st\<lparr>ignore_current_spaces := False, parse_action := SECTION, section_buf := [],
                 section_ptr := None\<rparr>)) \<and>
   (\<exists>st'. switch_char inc newline st = Some st' \<and> ignore_current_spaces st') \<and>
   (parse_action st = SECTION \<longrightarrow>
      (\<exists>st'. switch_char inc CHR '']'' st = Some st' \<and> ignore_current_spaces st'))"
proof (intro conjI impI)
  assume c: "c = CHR '' '' \<or> c = tab"
    and s: "parse_action st \<in> {SECTION, INHERITANCE, ATTRIBUTE, KEY, VALUE} \<and> \<not> ignore_current_spaces st"
  from c have sw: "switch_char inc c st = Some (on_space c st)"
    by (auto simp: switch_char_def)
  from s have "on_space c st = st\<lparr>parse_action := ERROR,
                    messages := messages st @ [GetErrorLineString st @ ''Space in wrong place'']\<rparr>"
    by (auto simp: on_space_def msg_def GetErrorLineString_def)
  with sw show "switch_char inc c st =
           Some (st\<lparr>parse_action := ERROR,
                    messages := messages st @ [GetErrorLineString st @ ''Space in wrong place'']\<rparr>)"
    by simp
next
  assume c: "c = CHR '' '' \<or> c = tab"
    and s: "parse_action st \<in> {SECTION, INHERITANCE, ATTRIBUTE, KEY, VALUE} \<and> ignore_current_spaces st"
  from c have sw: "switch_char inc c st = Some (on_space c st)"
    by (auto simp: switch_char_def)
  from s have "on_space c st = st"
    by (auto simp: on_space_def)
  with sw show "switch_char inc c st = Some st" by simp
next
  assume c: "c = CHR '' '' \<or> c = tab" and s: "parse_action st = STRING_VALUE"
  then show "switch_char inc c st = Some (st\<lparr>value_buf := value_buf st @ [c]\<rparr>)"
    by (auto simp: switch_char_def on_space_def)
next
  show "ignore_current_spaces (init_frame p)" by (simp add: init_frame_def)
next
  assume "ignore_current_spaces st \<and> switch_char inc c st = Some st1 \<and> \<not> ignore_current_spaces st1"
  then show "c = CHR ''[''" "parse_action st = NEW_LINE"
    using flag_cleared_only_by_open_bracket [of inc c st st1] by simp_all
next
  show "ignore_current_spaces (on_escape e st) = ignore_current_spaces st"
    by (rule flag_kept)
next
  show "ignore_current_spaces (next_pos st) = ignore_current_spaces st"
    by (simp add: next_pos_def)
next
  assume "parse_action st = NEW_LINE"
  then show "switch_char inc CHR ''['' st =
        Some (st\<lparr>ignore_current_spaces := False, parse_action := SECTION, section_buf := [],
                 section_ptr := None\<rparr>)"
    by (simp add: switch_char_def on_open_bracket_def)
next
  have "switch_char inc newline st = Some (on_newline st)" by (simp add: switch_char_def)
  moreover have "ignore_current_spaces (on_newline st)" by (simp add: on_newline_def Let_def)
  ultimately show "\<exists>st'. switch_char inc newline st = Some st' \<and> ignore_current_spaces st'"
    by blast
next
  assume "parse_action st = SECTION"
  then have "switch_char inc CHR '']'' st = Some (close_section st)"
    by (simp add: switch_char_def on_close_bracket_def)
  moreover have "ignore_current_spaces (close_section st)" by (simp add: close_section_def)
  ultimately show "\<exists>st'. switch_char inc CHR '']'' st = Some st' \<and> ignore_current_spaces st'"
    by blast
qed

text \<open>
  The frames of the examples below are frames of parses: the one after \<^verbatim>\<open>[a\<close>, the one after
  the key \<^verbatim>\<open>k\<close> on the line under the header \<^verbatim>\<open>[s]\<close>, and the one after \<^verbatim>\<open>k="a\<close>.
\<close>

lemma example_frames_reached:
  "consumes inc ''[a'' (init_frame new_parser) frame_mid_section \<and>
   consumes inc (''[s]'' @ [newline] @ ''k'') (init_frame new_parser) frame_in_key \<and>
   consumes inc (''k='' @ [dq] @ ''a'') (init_frame new_parser) frame_in_string"
  unfolding consumes_def
  by (simp add: switch_char_def on_open_bracket_def on_default_def on_close_bracket_def
      close_section_def on_newline_def next_pos_def init_frame_def frame_mid_section_def
      frame_in_key_def frame_in_string_def new_parser_def parser_with_def Let_def empty_Section_def
      on_space_def on_equals_def register_key_def on_quote_def)

text \<open>
  A space after \<^verbatim>\<open>[a\<close>, a space after the \<^verbatim>\<open>k\<close> of a key line, a tab inside a string, and the
  \<^verbatim>\<open>[\<close> that opens the first line of a file.
\<close>

theorem space_in_token_witness:
  "parse_action frame_mid_section \<in> {SECTION, INHERITANCE, ATTRIBUTE, KEY, VALUE} \<and>
   \<not> ignore_current_spaces frame_mid_section \<and>
   switch_char (load 0 Map.empty) CHR '' '' frame_mid_section =
     Some (frame_mid_section\<lparr>parse_action := ERROR,
        messages := [''Error at line '' @ [sq] @ ''1'' @ [sq] @ '', character at '' @ [sq] @ ''2''
                       @ [sq] @ '' : Space in wrong place'']\<rparr>) \<and>
   parse_action frame_in_key \<in> {SECTION, INHERITANCE, ATTRIBUTE, KEY, VALUE} \<and>
   ignore_current_spaces frame_in_key \<and>
   switch_char (load 0 Map.empty) CHR '' '' frame_in_key = Some frame_in_key \<and>
   parse_action frame_in_string = STRING_VALUE \<and>
   switch_char (load 0 Map.empty) tab frame_in_string =
     Some (frame_in_string\<lparr>value_buf := ''a'' @ [tab]\<rparr>) \<and>
   ignore_current_spaces (init_frame new_parser) \<and>
   parse_action (init_frame new_parser) = NEW_LINE \<and>
   switch_char (load 0 Map.empty) CHR ''['' (init_frame new_parser) =
     Some ((init_frame new_parser)\<lparr>ignore_current_spaces := False, parse_action := SECTION,
             section_buf := [], section_ptr := None\<rparr>) \<and>
   \<not> ignore_current_spaces ((init_frame new_parser)\<lparr>ignore_current_spaces := False,
         parse_action := SECTION, section_buf := [], section_ptr := None\<rparr>) \<and>
   parse_action frame_mid_section = SECTION \<and>
   (\<exists>st'. switch_char (load 0 Map.empty) CHR '']'' frame_mid_section = Some st' \<and>
      ignore_current_spaces st') \<and>
   (\<exists>st'. switch_char (load 0 Map.empty) newline frame_mid_section = Some st' \<and>
      ignore_current_spaces st')"
proof -
  let ?inc = "load 0 Map.empty"
  let ?opened = "(init_frame new_parser)\<lparr>ignore_current_spaces := False, parse_action := SECTION,
             section_buf := [], section_ptr := None\<rparr>"
  have a: "parse_action frame_mid_section \<in> {SECTION, INHERITANCE, ATTRIBUTE, KEY, VALUE} \<and>
           \<not> ignore_current_spaces frame_mid_section"
    by (simp add: frame_mid_section_def)
  have k: "parse_action frame_in_key \<in> {SECTION, INHERITANCE, ATTRIBUTE, KEY, VALUE} \<and>
           ignore_current_spaces frame_in_key"
    by (simp add: frame_in_key_def init_frame_def)
  have b: "parse_action frame_in_string = STRING_VALUE"
    by (simp add: frame_in_string_def)
  have n: "parse_action (init_frame new_parser) = NEW_LINE"
    by (simp add: init_frame_def)
  have s: "parse_action frame_mid_section = SECTION"
    by (simp add: frame_mid_section_def)
  have m: "messages frame_mid_section @ [GetErrorLineString frame_mid_section @ ''Space in wrong place'']
           = [''Error at line '' @ [sq] @ ''1'' @ [sq] @ '', character at '' @ [sq] @ ''2''
                       @ [sq] @ '' : Space in wrong place'']"
    by (simp add: frame_mid_section_def init_frame_def new_parser_def GetErrorLineString_def
        to_string_digit)
  have v: "value_buf frame_in_string = ''a''"
    by (simp add: frame_in_string_def)
  from a space_in_token [of "CHR '' ''" frame_mid_section ?inc]
  have 1: "switch_char ?inc CHR '' '' frame_mid_section =
     Some (frame_mid_section\<lparr>parse_action := ERROR,
        messages := messages frame_mid_section @ [GetErrorLineString frame_mid_section @ ''Space in wrong place'']\<rparr>)"
    by blast
  from k space_in_token [of "CHR '' ''" frame_in_key ?inc]
  have 2: "switch_char ?inc CHR '' '' frame_in_key = Some frame_in_key"
    by blast
  from b space_in_token [of tab frame_in_string ?inc]
  have 3: "switch_char ?inc tab frame_in_string =
     Some (frame_in_string\<lparr>value_buf := value_buf frame_in_string @ [tab]\<rparr>)"
    by blast
  from space_in_token [of "CHR ''[''" "init_frame new_parser" ?inc new_parser]
  have 4: "ignore_current_spaces (init_frame new_parser)"
    by blast
  from n space_in_token [of "CHR ''[''" "init_frame new_parser" ?inc]
  have 5: "switch_char ?inc CHR ''['' (init_frame new_parser) = Some ?opened"
    by blast
  have 6: "\<not> ignore_current_spaces ?opened" by simp
  from 4 5 6 space_in_token [of "CHR ''[''" "init_frame new_parser" ?inc new_parser ?opened]
  have 7: "parse_action (init_frame new_parser) = NEW_LINE"
    by blast
  from s space_in_token [of "CHR '' ''" frame_mid_section ?inc]
  have 8: "(\<exists>st'. switch_char ?inc CHR '']'' frame_mid_section = Some st' \<and>
      ignore_current_spaces st') \<and>
   (\<exists>st'. switch_char ?inc newline frame_mid_section = Some st' \<and>
      ignore_current_spaces st')"
    by blast
  from a k b 1 2 3 4 5 6 7 8 s show ?thesis unfolding m v by (intro conjI) simp_all
qed

section \<open>Include directives\<close>



section \<open>Inheritance names are section names\<close>

lemma refs_ok_section_write:
  assumes "refs_ok sd" and "section_write sd ptr sd'"
  shows "refs_ok sd'"
proof -
  from assms(2) consider "sd' = sd"
    | name sec sec' where "sd name = Some sec" "sd' = sd(name \<mapsto> sec')"
        "inheritances sec' = inheritances sec \<or>
         (\<exists>i. sd i \<noteq> None \<and> inheritances sec' = inheritances sec @ [i])"
    by (auto simp: section_write_def)
  then show ?thesis
  proof cases
    case 1
    with assms(1) show ?thesis by simp
  next
    case 2
    from 2(1) assms(1) have old: "set (inheritances sec) \<subseteq> dom sd"
      by (simp add: refs_ok_def)
    with 2(3) have new: "set (inheritances sec') \<subseteq> dom sd" by auto
    from 2(1,2) have d: "dom sd' = dom sd" by auto
    show ?thesis
      unfolding refs_ok_def
    proof (intro allI impI)
      fix s x assume "sd' s = Some x"
      with 2(2) new assms(1) have "set (inheritances x) \<subseteq> dom sd"
        by (cases "s = name") (auto simp: refs_ok_def)
      with d show "set (inheritances x) \<subseteq> dom sd'" by simp
    qed
  qed
qed

lemma refs_ok_new_section:
  assumes "refs_ok sd"
  shows "refs_ok (sd(name \<mapsto> empty_Section))"
  unfolding refs_ok_def
proof (intro allI impI)
  fix s x assume "(sd(name \<mapsto> empty_Section)) s = Some x"
  with assms have "set (inheritances x) \<subseteq> dom sd"
    by (cases "s = name") (auto simp: refs_ok_def empty_Section_def)
  then show "set (inheritances x) \<subseteq> dom (sd(name \<mapsto> empty_Section))" by auto
qed

lemma refs_ok_pure_effect:
  "refs_ok (section_data st) \<Longrightarrow> pure_effect st st' \<Longrightarrow> refs_ok (section_data st')"
  unfolding pure_effect_def
  using refs_ok_section_write refs_ok_new_section by auto

lemma load_refs_ok:
  "refs_ok (section_data p) \<Longrightarrow> load n fs path p = Some p' \<Longrightarrow> refs_ok (section_data p')"
proof (induction n arbitrary: path p p')
  case 0
  then show ?case by simp
next
  case (Suc n)
  show ?case
  proof (cases "fs path")
    case None
    with Suc.prems show ?thesis by auto
  next
    case (Some content)
    with Suc.prems obtain st' where
      run: "parse_loop (load n fs) content (init_frame (p\<lparr>current_file := path\<rparr>)) = Some st'"
      and p': "p' = object_of st'"
      by auto
    have "refs_ok (section_data st')"
    proof (rule parse_loop_preserves [where I = "\<lambda>st. refs_ok (section_data st)", OF _ _ _ run])
      show "refs_ok (section_data (init_frame (p\<lparr>current_file := path\<rparr>)))"
        using Suc.prems(1) by (simp add: init_frame_def)
    next
      fix st st' assume "refs_ok (section_data st)" "pure_effect st st'"
      then show "refs_ok (section_data st')" by (rule refs_ok_pure_effect)
    next
      fix st st' assume r: "refs_ok (section_data st)" and i: "include_effect (load n fs) st st'"
      from i obtain q where
        l: "load n fs (base_path st @ preprocessor_second st) (object_of st) = Some q"
        and sd: "section_data st' = section_data q"
        by (auto simp: include_effect_def)
      from r have "refs_ok (section_data (object_of st))" by (simp add: object_of_def)
      from Suc.IH [OF this l] sd show "refs_ok (section_data st')" by simp
    qed
    with p' show ?thesis by (simp add: object_of_def)
  qed
qed

text \<open>
  C8 (as amended). Loading a file keeps every inheritance name the name of a section; so does
  every single character read on the way, escapes included. A reference flushed while the
  section pointer is live and its target is absent is not stored: the document is unchanged,
  one message is emitted and the inheritance buffer is cleared. While the section pointer is
  null (the header was rejected) a flush stores nothing and emits no message.
\<close>

theorem inheritances_name_sections:
  "(refs_ok (section_data p) \<and> load n fs path p = Some p' \<longrightarrow> refs_ok (section_data p')) \<and>
   (refs_ok (section_data st) \<and> switch_char (load n fs) c st = Some st' \<longrightarrow>
      refs_ok (section_data st')) \<and>
   (refs_ok (section_data st) \<longrightarrow> refs_ok (section_data (on_escape e st))) \<and>
   (section_ptr st \<noteq> None \<and> inheritance_buf st \<noteq> [] \<and>
    section_data st (inheritance_buf st) = None \<longrightarrow>
      PushInheritance st =
        st\<lparr>messages := messages st @
              [GetErrorLineString st @ ''Inherited section '' @ [dq] @ inheritance_buf st @ [dq]
                 @ '' is not exist!''],
           inheritance_buf := []\<rparr>) \<and>
   (section_ptr st = None \<longrightarrow>
      section_data (PushInheritance st) = section_data st \<and>
      messages (PushInheritance st) = messages st)"
proof (intro conjI impI)
  assume "refs_ok (section_data p) \<and> load n fs path p = Some p'"
  then show "refs_ok (section_data p')" using load_refs_ok by blast
next
  assume a: "refs_ok (section_data st) \<and> switch_char (load n fs) c st = Some st'"
  then have "pure_effect st st' \<or> include_effect (load n fs) st st'"
    using switch_char_effect by blast
  then show "refs_ok (section_data st')"
  proof
    assume "pure_effect st st'"
    with a show ?thesis using refs_ok_pure_effect by blast
  next
    assume "include_effect (load n fs) st st'"
    then obtain q where
      l: "load n fs (base_path st @ preprocessor_second st) (object_of st) = Some q"
      and sd: "section_data st' = section_data q"
      by (auto simp: include_effect_def)
    from a have "refs_ok (section_data (object_of st))" by (simp add: object_of_def)
    from load_refs_ok [OF this l] sd show ?thesis by simp
  qed
next
  assume "refs_ok (section_data st)"
  then show "refs_ok (section_data (on_escape e st))"
    using refs_ok_pure_effect pure_effect_on_escape by blast
next
  assume "section_ptr st \<noteq> None \<and> inheritance_buf st \<noteq> [] \<and>
    section_data st (inheritance_buf st) = None"
  then show "PushInheritance st =
        st\<lparr>messages := messages st @
              [GetErrorLineString st @ ''Inherited section '' @ [dq] @ inheritance_buf st @ [dq]
                 @ '' is not exist!''],
           inheritance_buf := []\<rparr>"
    by (auto simp: PushInheritance_def msg_def)
next
  assume "section_ptr st = None"
  then show "section_data (PushInheritance st) = section_data st"
    by (simp add: PushInheritance_def)
next
  assume "section_ptr st = None"
  then show "messages (PushInheritance st) = messages st"
    by (simp add: PushInheritance_def)
qed

text \<open>
  C8 as stated fails: the rejected second header \<^verbatim>\<open>[a] : zzz\<close> names a section that does not
  exist; the newline flushes the pending reference with the section pointer null, and the
  only message of the parse is the one about the redeclared section.
\<close>

theorem rejected_header_reference_counterexample:
  "\<not> Option.is_none (load 1 (file_system ''f'' text_rejected_reference) ''f'' new_parser) \<and>
   \<not> hasSection (section_data (the (load 1 (file_system ''f'' text_rejected_reference) ''f'' new_parser))) ''zzz'' \<and>
   messages (the (load 1 (file_system ''f'' text_rejected_reference) ''f'' new_parser)) =
     [''Error at line '' @ [sq] @ ''2'' @ [sq] @ '', character at '' @ [sq] @ ''3'' @ [sq]
        @ '' : Section '' @ [dq] @ ''a'' @ [dq] @ '' already exist.'']"
  by code_simp

text \<open>
  A file whose first section refers to a section declared only later: the forward reference
  is dropped with one message, the later reference to the same section is stored.
\<close>

theorem inheritances_name_sections_witness:
  "refs_ok (section_data new_parser) \<and>
   (case load 1 (file_system ''f'' text_forward_reference) ''f'' new_parser of
      None \<Rightarrow> False
    | Some p' \<Rightarrow>
        refs_ok (section_data p') \<and>
        map_option inheritances (section_data p' ''c'') = Some [] \<and>
        map_option inheritances (section_data p' ''d'') = Some [''p''] \<and>
        messages p' =
          [''Error at line '' @ [sq] @ ''1'' @ [sq] @ '', character at '' @ [sq] @ ''7'' @ [sq]
             @ '' : Inherited section '' @ [dq] @ ''p'' @ [dq] @ '' is not exist!'']) \<and>
   section_ptr frame_pending_reference \<noteq> None \<and>
   inheritance_buf frame_pending_reference \<noteq> [] \<and>
   section_data frame_pending_reference (inheritance_buf frame_pending_reference) = None \<and>
   PushInheritance frame_pending_reference =
     frame_pending_reference\<lparr>messages :=
        [''Error at line '' @ [sq] @ ''1'' @ [sq] @ '', character at '' @ [sq] @ ''7'' @ [sq]
           @ '' : Inherited section '' @ [dq] @ ''p'' @ [dq] @ '' is not exist!''],
        inheritance_buf := []\<rparr> \<and>
   section_ptr frame_rejected_reference = None \<and>
   section_data (PushInheritance frame_rejected_reference) ''a'' = Some empty_Section \<and>
   messages (PushInheritance frame_rejected_reference) = []"
proof -
  have r0: "refs_ok (section_data new_parser)"
    by (simp add: refs_ok_def new_parser_def)
  have ev: "case load 1 (file_system ''f'' text_forward_reference) ''f'' new_parser of
      None \<Rightarrow> False
    | Some p' \<Rightarrow>
        map_option inheritances (section_data p' ''c'') = Some [] \<and>
        map_option inheritances (section_data p' ''d'') = Some [''p''] \<and>
        messages p' =
          [''Error at line '' @ [sq] @ ''1'' @ [sq] @ '', character at '' @ [sq] @ ''7'' @ [sq]
             @ '' : Inherited section '' @ [dq] @ ''p'' @ [dq] @ '' is not exist!'']"
    by code_simp
  have l: "case load 1 (file_system ''f'' text_forward_reference) ''f'' new_parser of
      None \<Rightarrow> False
    | Some p' \<Rightarrow>
        refs_ok (section_data p') \<and>
        map_option inheritances (section_data p' ''c'') = Some [] \<and>
        map_option inheritances (section_data p' ''d'') = Some [''p''] \<and>
        messages p' =
          [''Error at line '' @ [sq] @ ''1'' @ [sq] @ '', character at '' @ [sq] @ ''7'' @ [sq]
             @ '' : Inherited section '' @ [dq] @ ''p'' @ [dq] @ '' is not exist!'']"
  proof (cases "load 1 (file_system ''f'' text_forward_reference) ''f'' new_parser")
    case None
    with ev show ?thesis by simp
  next
    case (Some p')
    with r0 inheritances_name_sections
      [of new_parser 1 "file_system ''f'' text_forward_reference" "''f''" p']
    have "refs_ok (section_data p')" by blast
    with Some ev show ?thesis by simp
  qed
  have f: "section_ptr frame_pending_reference \<noteq> None \<and>
   inheritance_buf frame_pending_reference \<noteq> [] \<and>
   section_data frame_pending_reference (inheritance_buf frame_pending_reference) = None"
    by (simp add: frame_pending_reference_def init_frame_def parser_with_def new_parser_def)
  have m: "messages frame_pending_reference @
              [GetErrorLineString frame_pending_reference @ ''Inherited section '' @ [dq]
                 @ inheritance_buf frame_pending_reference @ [dq] @ '' is not exist!'']
           = [''Error at line '' @ [sq] @ ''1'' @ [sq] @ '', character at '' @ [sq] @ ''7'' @ [sq]
           @ '' : Inherited section '' @ [dq] @ ''p'' @ [dq] @ '' is not exist!'']"
    by (simp add: frame_pending_reference_def init_frame_def parser_with_def new_parser_def
        GetErrorLineString_def to_string_digit)
  from f inheritances_name_sections [where st = frame_pending_reference]
  have "PushInheritance frame_pending_reference =
        frame_pending_reference\<lparr>messages := messages frame_pending_reference @
              [GetErrorLineString frame_pending_reference @ ''Inherited section '' @ [dq]
                 @ inheritance_buf frame_pending_reference @ [dq] @ '' is not exist!''],
           inheritance_buf := []\<rparr>"
    by blast
  moreover have g: "section_ptr frame_rejected_reference = None"
    "section_data frame_rejected_reference ''a'' = Some empty_Section"
    "messages frame_rejected_reference = []"
    by (simp_all add: frame_rejected_reference_def init_frame_def parser_with_def new_parser_def)
  moreover from g(1) inheritances_name_sections [where st = frame_rejected_reference]
  have "section_data (PushInheritance frame_rejected_reference) = section_data frame_rejected_reference \<and>
        messages (PushInheritance frame_rejected_reference) = messages frame_rejected_reference"
    by blast
  ultimately show ?thesis using r0 l f m by simp
qed

section \<open>Reading a known prefix of the file\<close>

lemma consumes_Nil: "consumes inc [] st st"
  by (simp add: consumes_def)

lemma consumes_append:
  "consumes inc cs1 st st1 \<Longrightarrow> consumes inc cs2 st1 st2 \<Longrightarrow> consumes inc (cs1 @ cs2) st st2"
  by (simp add: consumes_def)

lemma consumes_three:
  "consumes inc a st st1 \<Longrightarrow> consumes inc b st1 st2 \<Longrightarrow> consumes inc c st2 st3 \<Longrightarrow>
   consumes inc (a @ b @ c) st st3"
  by (simp add: consumes_def)

lemma consumes_char:
  "\<not> (c = backslash \<and> parse_action st = STRING_VALUE) \<Longrightarrow> switch_char inc c st = Some st1 \<Longrightarrow>
   consumes inc [c] st (next_pos st1)"
  by (auto simp: consumes_def)

lemma consumes_Cons:
  "\<not> (c = backslash \<and> parse_action st = STRING_VALUE) \<Longrightarrow> switch_char inc c st = Some st1 \<Longrightarrow>
   consumes inc cs (next_pos st1) st2 \<Longrightarrow> consumes inc (c # cs) st st2"
  by (auto simp: consumes_def)

lemma switch_char_plain: "plain_char c \<Longrightarrow> switch_char inc c st = Some (on_default c st)"
  by (simp add: plain_char_def special_characters_def switch_char_def)

lemma plain_not_backslash: "plain_char c \<Longrightarrow> c \<noteq> backslash"
  by (auto simp: plain_char_def special_characters_def)

lemma consumes_space:
  "ignore_current_spaces st \<Longrightarrow> parse_action st \<in> {SECTION, INHERITANCE, ATTRIBUTE, KEY, VALUE} \<Longrightarrow>
   consumes inc '' '' st (next_pos st)"
  by (rule consumes_char) (auto simp: switch_char_def on_space_def)

lemma consumes_section_name:
  "parse_action st = SECTION \<Longrightarrow> \<forall>c\<in>set cs. plain_char c \<Longrightarrow>
   consumes inc cs st
     (st\<lparr>section_buf := section_buf st @ cs,
         character_pos := character_pos st + of_nat (length cs)\<rparr>)"
proof (induction cs arbitrary: st)
  case Nil
  then show ?case by (simp add: consumes_Nil)
next
  case (Cons c cs)
  let ?st1 = "st\<lparr>section_buf := section_buf st @ [c]\<rparr>"
  from Cons.prems have sw: "switch_char inc c st = Some ?st1"
    by (simp add: switch_char_plain on_default_def)
  have "consumes inc cs (next_pos ?st1)
     ((next_pos ?st1)\<lparr>section_buf := section_buf (next_pos ?st1) @ cs,
         character_pos := character_pos (next_pos ?st1) + of_nat (length cs)\<rparr>)"
    using Cons.prems by (intro Cons.IH) (simp_all add: next_pos_def)
  then have "consumes inc cs (next_pos ?st1)
     (st\<lparr>section_buf := section_buf st @ c # cs,
         character_pos := character_pos st + of_nat (length (c # cs))\<rparr>)"
    by (simp add: next_pos_def add.commute add.left_commute)
  with sw Cons.prems show ?case
    by (intro consumes_Cons [where ?st1.0 = ?st1]) (simp_all add: plain_not_backslash)
qed

lemma consumes_inheritance_name:
  "parse_action st = INHERITANCE \<Longrightarrow> \<forall>c\<in>set cs. plain_char c \<Longrightarrow>
   consumes inc cs st
     (st\<lparr>inheritance_buf := inheritance_buf st @ cs,
         character_pos := character_pos st + of_nat (length cs)\<rparr>)"
proof (induction cs arbitrary: st)
  case Nil
  then show ?case by (simp add: consumes_Nil)
next
  case (Cons c cs)
  let ?st1 = "st\<lparr>inheritance_buf := inheritance_buf st @ [c]\<rparr>"
  from Cons.prems have sw: "switch_char inc c st = Some ?st1"
    by (simp add: switch_char_plain on_default_def)
  have "consumes inc cs (next_pos ?st1)
     ((next_pos ?st1)\<lparr>inheritance_buf := inheritance_buf (next_pos ?st1) @ cs,
         character_pos := character_pos (next_pos ?st1) + of_nat (length cs)\<rparr>)"
    using Cons.prems by (intro Cons.IH) (simp_all add: next_pos_def)
  then have "consumes inc cs (next_pos ?st1)
     (st\<lparr>inheritance_buf := inheritance_buf st @ c # cs,
         character_pos := character_pos st + of_nat (length (c # cs))\<rparr>)"
    by (simp add: next_pos_def add.commute add.left_commute)
  with sw Cons.prems show ?case
    by (intro consumes_Cons [where ?st1.0 = ?st1]) (simp_all add: plain_not_backslash)
qed

lemma consumes_attribute_name:
  "parse_action st = ATTRIBUTE \<Longrightarrow> \<forall>c\<in>set cs. plain_char c \<Longrightarrow>
   consumes inc cs st
     (st\<lparr>attribute_buf := attribute_buf st @ cs,
         character_pos := character_pos st + of_nat (length cs)\<rparr>)"
proof (induction cs arbitrary: st)
  case Nil
  then show ?case by (simp add: consumes_Nil)
next
  case (Cons c cs)
  let ?st1 = "st\<lparr>attribute_buf := attribute_buf st @ [c]\<rparr>"
  from Cons.prems have sw: "switch_char inc c st = Some ?st1"
    by (simp add: switch_char_plain on_default_def)
  have "consumes inc cs (next_pos ?st1)
     ((next_pos ?st1)\<lparr>attribute_buf := attribute_buf (next_pos ?st1) @ cs,
         character_pos := character_pos (next_pos ?st1) + of_nat (length cs)\<rparr>)"
    using Cons.prems by (intro Cons.IH) (simp_all add: next_pos_def)
  then have "consumes inc cs (next_pos ?st1)
     (st\<lparr>attribute_buf := attribute_buf st @ c # cs,
         character_pos := character_pos st + of_nat (length (c # cs))\<rparr>)"
    by (simp add: next_pos_def add.commute add.left_commute)
  with sw Cons.prems show ?case
    by (intro consumes_Cons [where ?st1.0 = ?st1]) (simp_all add: plain_not_backslash)
qed

lemma consumes_key_name:
  "parse_action st = KEY \<Longrightarrow> \<forall>c\<in>set cs. plain_char c \<Longrightarrow>
   consumes inc cs st
     (st\<lparr>key_buf := key_buf st @ cs,
         character_pos := character_pos st + of_nat (length cs)\<rparr>)"
proof (induction cs arbitrary: st)
  case Nil
  then show ?case by (simp add: consumes_Nil)
next
  case (Cons c cs)
  let ?st1 = "st\<lparr>key_buf := key_buf st @ [c]\<rparr>"
  from Cons.prems have sw: "switch_char inc c st = Some ?st1"
    by (simp add: switch_char_plain on_default_def)
  have "consumes inc cs (next_pos ?st1)
     ((next_pos ?st1)\<lparr>key_buf := key_buf (next_pos ?st1) @ cs,
         character_pos := character_pos (next_pos ?st1) + of_nat (length cs)\<rparr>)"
    using Cons.prems by (intro Cons.IH) (simp_all add: next_pos_def)
  then have "consumes inc cs (next_pos ?st1)
     (st\<lparr>key_buf := key_buf st @ c # cs,
         character_pos := character_pos st + of_nat (length (c # cs))\<rparr>)"
    by (simp add: next_pos_def add.commute add.left_commute)
  with sw Cons.prems show ?case
    by (intro consumes_Cons [where ?st1.0 = ?st1]) (simp_all add: plain_not_backslash)
qed

text \<open>
  A raw value of plain characters and commas, read in state \<^verbatim>\<open>VALUE\<close> or \<^verbatim>\<open>VALUE_ARRAY\<close>: it
  is appended to the value buffer, and the state is one of the two again.
\<close>

lemma consumes_value_text:
  "parse_action st = VALUE \<or> parse_action st = VALUE_ARRAY \<Longrightarrow> \<forall>c\<in>set cs. value_char c \<Longrightarrow>
   \<exists>a. (a = VALUE \<or> a = VALUE_ARRAY) \<and>
     consumes inc cs st
       (st\<lparr>value_buf := value_buf st @ cs, parse_action := a,
           character_pos := character_pos st + of_nat (length cs)\<rparr>)"
proof (induction cs arbitrary: st)
  case Nil
  have "consumes inc [] st
       (st\<lparr>value_buf := value_buf st @ [], parse_action := parse_action st,
           character_pos := character_pos st + of_nat (length ([] :: string))\<rparr>)"
    by (simp add: consumes_Nil)
  with Nil.prems(1) show ?case by blast
next
  case (Cons c cs)
  from Cons.prems(2) have vc: "value_char c" by simp
  obtain a1 where a1: "a1 = VALUE \<or> a1 = VALUE_ARRAY"
    and sw: "switch_char inc c st = Some (st\<lparr>value_buf := value_buf st @ [c], parse_action := a1\<rparr>)"
    and nb: "c \<noteq> backslash"
  proof (cases "c = CHR '',''")
    case True
    with Cons.prems(1) have "switch_char inc c st =
        Some (st\<lparr>value_buf := value_buf st @ [c], parse_action := VALUE_ARRAY\<rparr>)"
      by (auto simp: switch_char_def on_comma_def)
    with True that show ?thesis by auto
  next
    case False
    with vc have p: "plain_char c" by (simp add: value_char_def)
    with Cons.prems(1) have "switch_char inc c st =
        Some (st\<lparr>value_buf := value_buf st @ [c], parse_action := parse_action st\<rparr>)"
      by (auto simp: switch_char_plain on_default_def)
    with Cons.prems(1) p that show ?thesis by (auto simp: plain_not_backslash)
  qed
  let ?st1 = "st\<lparr>value_buf := value_buf st @ [c], parse_action := a1\<rparr>"
  from a1 Cons.prems(2) obtain a where a: "a = VALUE \<or> a = VALUE_ARRAY"
    and "consumes inc cs (next_pos ?st1)
       ((next_pos ?st1)\<lparr>value_buf := value_buf (next_pos ?st1) @ cs, parse_action := a,
           character_pos := character_pos (next_pos ?st1) + of_nat (length cs)\<rparr>)"
    using Cons.IH [of "next_pos ?st1"] by (auto simp: next_pos_def)
  then have "consumes inc cs (next_pos ?st1)
     (st\<lparr>value_buf := value_buf st @ c # cs, parse_action := a,
         character_pos := character_pos st + of_nat (length (c # cs))\<rparr>)"
    by (simp add: next_pos_def add.commute add.left_commute)
  with sw nb have "consumes inc (c # cs) st
     (st\<lparr>value_buf := value_buf st @ c # cs, parse_action := a,
         character_pos := character_pos st + of_nat (length (c # cs))\<rparr>)"
    by (intro consumes_Cons [where ?st1.0 = ?st1]) simp_all
  with a show ?case by blast
qed

section \<open>A redeclared section\<close>

lemma consumes_duplicate_header:
  assumes nl: "parse_action st = NEW_LINE" and ex: "section_data st X \<noteq> None"
    and pl: "\<forall>c\<in>set X. plain_char c"
  shows "consumes inc (CHR ''['' # X @ [CHR '']'']) st (duplicate_header_frame X st)"
proof -
  let ?s1 = "st\<lparr>ignore_current_spaces := False, parse_action := SECTION, section_buf := [],
                section_ptr := None\<rparr>"
  let ?s2 = "(next_pos ?s1)\<lparr>section_buf := section_buf (next_pos ?s1) @ X,
                character_pos := character_pos (next_pos ?s1) + of_nat (length X)\<rparr>"
  from nl have o: "switch_char inc CHR ''['' st = Some ?s1"
    by (simp add: switch_char_def on_open_bracket_def)
  have n: "consumes inc X (next_pos ?s1) ?s2"
    using pl by (intro consumes_section_name) (simp_all add: next_pos_def)
  have c: "switch_char inc CHR '']'' ?s2 = Some (close_section ?s2)"
    by (simp add: switch_char_def on_close_bracket_def next_pos_def)
  have "consumes inc [CHR '']''] ?s2 (next_pos (close_section ?s2))"
    using c by (intro consumes_char) simp_all
  with n have "consumes inc (X @ [CHR '']'']) (next_pos ?s1) (next_pos (close_section ?s2))"
    by (rule consumes_append)
  with o nl have "consumes inc (CHR ''['' # X @ [CHR '']'']) st (next_pos (close_section ?s2))"
    by (intro consumes_Cons [where ?st1.0 = ?s1]) simp_all
  moreover from ex obtain y where "section_data st X = Some y" by auto
  then have "next_pos (close_section ?s2) = duplicate_header_frame X st"
    by (simp add: close_section_def next_pos_def msg_def duplicate_header_frame_def
        GetErrorLineString_def add.commute add.left_commute)
  ultimately show ?thesis by simp
qed

lemma inert_helpers:
  assumes "section_ptr st = None"
  shows "PushInheritance st = st" "PushAttribute st = st" "register_key st = st"
    "commit_value st = st\<lparr>key_buf := [], value_buf := []\<rparr>"
  using assms by (simp_all add: PushInheritance_def PushAttribute_def register_key_def commit_value_def)

lemma inert_step:
  assumes ptr: "section_ptr st = None" and sw: "switch_char inc c st = Some st'"
    and ninc: "\<not> (c = CHR ''>'' \<and> parse_action st = INCLUDE)"
  shows "(section_ptr st' = None \<and> section_data st' = section_data st) \<or>
         (c = CHR '']'' \<and> parse_action st = SECTION \<and> section_data st (section_buf st) = None \<and>
          section_ptr st' = Some (section_buf st) \<and>
          section_data st' = (section_data st)(section_buf st \<mapsto> empty_Section))"
proof (cases "c = CHR '']''")
  case True
  with sw have "st' = on_close_bracket c st" by (simp add: switch_char_def)
  with ptr True show ?thesis
    by (cases "parse_action st") (auto simp: on_close_bracket_def close_section_def msg_def)
next
  case False
  have a: "section_ptr (on_newline st) = None \<and> section_data (on_newline st) = section_data st"
    using ptr by (cases "parse_action st") (simp_all add: on_newline_def inert_helpers msg_def Let_def)
  have b: "\<And>c. section_ptr (on_comma c st) = None \<and> section_data (on_comma c st) = section_data st"
    using ptr by (cases "parse_action st") (simp_all add: on_comma_def inert_helpers msg_def)
  have d: "\<And>c. section_ptr (on_equals c st) = None \<and> section_data (on_equals c st) = section_data st"
    using ptr by (cases "parse_action st") (simp_all add: on_equals_def inert_helpers msg_def)
  have e: "\<And>c. section_ptr (on_open_bracket c st) = None \<and> section_data (on_open_bracket c st) = section_data st"
    using ptr by (cases "parse_action st") (simp_all add: on_open_bracket_def msg_def)
  have f: "on_greater inc c st = Some st' \<Longrightarrow> c = CHR ''>'' \<Longrightarrow>
           section_ptr st' = None \<and> section_data st' = section_data st"
    using ptr ninc by (cases "parse_action st") (auto simp: on_greater_def)
  have g: "\<And>h. pure_effect st h \<Longrightarrow> section_ptr h = section_ptr st \<Longrightarrow>
             section_ptr h = None \<and> section_data h = section_data st"
    using ptr by (auto simp: pure_effect_def section_write_def)
  have keep: "\<And>c. section_ptr (on_comment_character c st) = section_ptr st"
    "\<And>c. section_ptr (on_comment_multiline c st) = section_ptr st"
    "\<And>c. section_ptr (on_space c st) = section_ptr st"
    "section_ptr (on_backslash st) = section_ptr st"
    "section_ptr (on_quote st) = section_ptr st"
    "\<And>c. section_ptr (on_hash c st) = section_ptr st"
    "\<And>c. section_ptr (on_less c st) = section_ptr st"
    "\<And>c. section_ptr (on_colon c st) = section_ptr st"
    "\<And>c. section_ptr (on_default c st) = section_ptr st"
    by (simp_all add: on_comment_character_def on_comment_multiline_def on_space_def
        on_backslash_def on_quote_def on_hash_def on_less_def on_colon_def on_default_def msg_def
        split: ParseAction.splits)
  from sw False have "section_ptr st' = None \<and> section_data st' = section_data st"
    unfolding switch_char_def
    by (auto split: if_splits
        simp: a b d e f
        intro!: g [OF pure_effect_on_comment_character] g [OF pure_effect_on_comment_multiline]
          g [OF pure_effect_on_space] g [OF pure_effect_on_backslash] g [OF pure_effect_on_quote]
          g [OF pure_effect_on_hash] g [OF pure_effect_on_less] g [OF pure_effect_on_colon]
          g [OF pure_effect_on_default] keep)
  then show ?thesis by simp
qed

lemma frozen_pure_effect:
  assumes "section_data st X = Some secX \<and> section_ptr st \<noteq> Some X" and "pure_effect st st'"
  shows "section_data st' X = Some secX \<and> section_ptr st' \<noteq> Some X"
  using assms by (auto simp: pure_effect_def section_write_def)

lemma load_frozen:
  "section_data p X = Some secX \<Longrightarrow> load n fs path p = Some p' \<Longrightarrow> section_data p' X = Some secX"
proof (induction n arbitrary: path p p')
  case 0
  then show ?case by simp
next
  case (Suc n)
  show ?case
  proof (cases "fs path")
    case None
    with Suc.prems show ?thesis by auto
  next
    case (Some content)
    with Suc.prems obtain st' where
      run: "parse_loop (load n fs) content (init_frame (p\<lparr>current_file := path\<rparr>)) = Some st'"
      and p': "p' = object_of st'"
      by auto
    have "section_data st' X = Some secX \<and> section_ptr st' \<noteq> Some X"
    proof (rule parse_loop_preserves
        [where I = "\<lambda>st. section_data st X = Some secX \<and> section_ptr st \<noteq> Some X", OF _ _ _ run])
      show "section_data (init_frame (p\<lparr>current_file := path\<rparr>)) X = Some secX \<and>
            section_ptr (init_frame (p\<lparr>current_file := path\<rparr>)) \<noteq> Some X"
        using Suc.prems(1) by (simp add: init_frame_def)
    next
      fix st st'
      assume "section_data st X = Some secX \<and> section_ptr st \<noteq> Some X" "pure_effect st st'"
      then show "section_data st' X = Some secX \<and> section_ptr st' \<noteq> Some X"
        by (rule frozen_pure_effect)
    next
      fix st st'
      assume r: "section_data st X = Some secX \<and> section_ptr st \<noteq> Some X"
        and i: "include_effect (load n fs) st st'"
      from i obtain q where
        l: "load n fs (base_path st @ preprocessor_second st) (object_of st) = Some q"
        and sd: "section_data st' = section_data q" and sp: "section_ptr st' = section_ptr st"
        by (auto simp: include_effect_def)
      from r have "section_data (object_of st) X = Some secX" by (simp add: object_of_def)
      from Suc.IH [OF this l] sd sp r
      show "section_data st' X = Some secX \<and> section_ptr st' \<noteq> Some X" by simp
    qed
    with p' show ?thesis by (simp add: object_of_def)
  qed
qed

lemma parse_loop_frozen:
  assumes "section_data st X = Some secX" and "section_ptr st \<noteq> Some X"
    and run: "parse_loop (load n fs) cs st = Some st'"
  shows "section_data st' X = Some secX"
proof -
  have "section_data st' X = Some secX \<and> section_ptr st' \<noteq> Some X"
  proof (rule parse_loop_preserves
      [where I = "\<lambda>st. section_data st X = Some secX \<and> section_ptr st \<noteq> Some X", OF _ _ _ run])
    show "section_data st X = Some secX \<and> section_ptr st \<noteq> Some X" using assms by simp
  next
    fix st st'
    assume "section_data st X = Some secX \<and> section_ptr st \<noteq> Some X" "pure_effect st st'"
    then show "section_data st' X = Some secX \<and> section_ptr st' \<noteq> Some X"
      by (rule frozen_pure_effect)
  next
    fix st st'
    assume r: "section_data st X = Some secX \<and> section_ptr st \<noteq> Some X"
      and i: "include_effect (load n fs) st st'"
    from i obtain q where
      l: "load n fs (base_path st @ preprocessor_second st) (object_of st) = Some q"
      and sd: "section_data st' = section_data q" and sp: "section_ptr st' = section_ptr st"
      by (auto simp: include_effect_def)
    from r have "section_data (object_of st) X = Some secX" by (simp add: object_of_def)
    from load_frozen [OF this l] sd sp r
    show "section_data st' X = Some secX \<and> section_ptr st' \<noteq> Some X" by simp
  qed
  then show ?thesis by simp
qed

text \<open>
  What does hold for a redeclared section. A header \<^verbatim>\<open>[X]\<close> read at the start of a line
  while \<open>X\<close> is already a section leaves the document as it is, reports that the section
  already exists and leaves the section pointer null. Whatever follows in the file, nested
  includes too, the entry of \<open>X\<close> is after the parse what it was before the header, so
  \<^verbatim>\<open>hasKey\<close> answers as before. While the pointer is null no character changes the document,
  except the \<^verbatim>\<open>]\<close> that closes the header of a new section and the \<^verbatim>\<open>>\<close> that closes an
  include; an escape changes nothing either.
\<close>

lemma redeclared_section_keeps_first:
  "(parse_action st = NEW_LINE \<and> section_data st X = Some secX \<and> (\<forall>c\<in>set X. plain_char c) \<longrightarrow>
      (\<forall>rest. parse_loop (load n fs) (CHR ''['' # X @ CHR '']'' # rest) st =
              parse_loop (load n fs) rest (duplicate_header_frame X st)) \<and>
      (\<forall>rest st'. parse_loop (load n fs) (CHR ''['' # X @ CHR '']'' # rest) st = Some st' \<longrightarrow>
          section_data st' X = Some secX \<and>
          (\<forall>k. fst (hasKey (object_of st') X k) = fst (hasKey (object_of st) X k)))) \<and>
   (section_ptr st0 = None \<and> switch_char inc c st0 = Some st1 \<and>
    \<not> (c = CHR ''>'' \<and> parse_action st0 = INCLUDE) \<longrightarrow>
      (section_ptr st1 = None \<and> section_data st1 = section_data st0) \<or>
      (c = CHR '']'' \<and> parse_action st0 = SECTION \<and> section_data st0 (section_buf st0) = None \<and>
       section_ptr st1 = Some (section_buf st0) \<and>
       section_data st1 = (section_data st0)(section_buf st0 \<mapsto> empty_Section))) \<and>
   (section_ptr st0 = None \<longrightarrow>
      section_ptr (on_escape e st0) = None \<and> section_data (on_escape e st0) = section_data st0)"
proof -
  have header: "parse_loop (load n fs) (CHR ''['' # X @ CHR '']'' # rest) st =
              parse_loop (load n fs) rest (duplicate_header_frame X st)"
    if "parse_action st = NEW_LINE \<and> section_data st X = Some secX \<and> (\<forall>c\<in>set X. plain_char c)"
    for rest
  proof -
    from that
    have "consumes (load n fs) (CHR ''['' # X @ [CHR '']'']) st (duplicate_header_frame X st)"
      by (intro consumes_duplicate_header) simp_all
    then have "parse_loop (load n fs) ((CHR ''['' # X @ [CHR '']'']) @ rest) st =
              parse_loop (load n fs) rest (duplicate_header_frame X st)"
      unfolding consumes_def by blast
    then show ?thesis by simp
  qed
  have kept: "section_data st' X = Some secX"
    if a: "parse_action st = NEW_LINE \<and> section_data st X = Some secX \<and> (\<forall>c\<in>set X. plain_char c)"
      and r: "parse_loop (load n fs) (CHR ''['' # X @ CHR '']'' # rest) st = Some st'"
    for rest st'
  proof -
    from header [OF a] r
    have r2: "parse_loop (load n fs) rest (duplicate_header_frame X st) = Some st'" by simp
    from a have "section_data (duplicate_header_frame X st) X = Some secX"
      and "section_ptr (duplicate_header_frame X st) \<noteq> Some X"
      by (simp_all add: duplicate_header_frame_def)
    then show ?thesis using r2 by (rule parse_loop_frozen)
  qed
  show ?thesis
  proof (intro conjI impI allI)
    fix rest
    assume "parse_action st = NEW_LINE \<and> section_data st X = Some secX \<and> (\<forall>c\<in>set X. plain_char c)"
    then show "parse_loop (load n fs) (CHR ''['' # X @ CHR '']'' # rest) st =
              parse_loop (load n fs) rest (duplicate_header_frame X st)"
      by (rule header)
  next
    fix rest st'
    assume "parse_action st = NEW_LINE \<and> section_data st X = Some secX \<and> (\<forall>c\<in>set X. plain_char c)"
      and "parse_loop (load n fs) (CHR ''['' # X @ CHR '']'' # rest) st = Some st'"
    then show "section_data st' X = Some secX" by (rule kept)
  next
    fix rest st' k
    assume a: "parse_action st = NEW_LINE \<and> section_data st X = Some secX \<and> (\<forall>c\<in>set X. plain_char c)"
      and r: "parse_loop (load n fs) (CHR ''['' # X @ CHR '']'' # rest) st = Some st'"
    from kept [OF a r] a
    show "fst (hasKey (object_of st') X k) = fst (hasKey (object_of st) X k)"
      by (simp add: hasKey_def object_of_def)
  next
    assume "section_ptr st0 = None \<and> switch_char inc c st0 = Some st1 \<and>
      \<not> (c = CHR ''>'' \<and> parse_action st0 = INCLUDE)"
    then show "(section_ptr st1 = None \<and> section_data st1 = section_data st0) \<or>
        (c = CHR '']'' \<and> parse_action st0 = SECTION \<and> section_data st0 (section_buf st0) = None \<and>
         section_ptr st1 = Some (section_buf st0) \<and>
         section_data st1 = (section_data st0)(section_buf st0 \<mapsto> empty_Section))"
      using inert_step by blast
  next
    assume "section_ptr st0 = None"
    then show "section_ptr (on_escape e st0) = None"
      by (simp add: on_escape_def msg_def)
  next
    show "section_data (on_escape e st0) = section_data st0"
      by (simp add: on_escape_def msg_def)
  qed
qed

text \<open>
  The frame after a first declaration \<^verbatim>\<open>[X]\<close> with \<^verbatim>\<open>k=1\<close>, and a second declaration with
  \<^verbatim>\<open>k=2\<close> and \<^verbatim>\<open>j=3\<close>: one message, and \<open>X\<close> keeps \<^verbatim>\<open>k=1\<close> alone.
\<close>

lemma redeclared_section_keeps_first_example:
  "parse_action frame_after_first = NEW_LINE \<and>
   section_data frame_after_first ''X'' = Some first_X \<and>
   (\<forall>c\<in>set ''X''. plain_char c) \<and>
   (case parse_loop (load 0 Map.empty) text_second_declaration frame_after_first of
      None \<Rightarrow> False
    | Some st' \<Rightarrow>
        section_data st' ''X'' = Some first_X \<and>
        \<not> fst (hasKey (object_of st') ''X'' ''j'') \<and>
        messages st' =
          [''Error at line '' @ [sq] @ ''3'' @ [sq] @ '', character at '' @ [sq] @ ''3'' @ [sq]
             @ '' : Section '' @ [dq] @ ''X'' @ [dq] @ '' already exist.'']) \<and>
   section_ptr frame_inert_key = None \<and>
   (case switch_char (load 0 Map.empty) CHR ''='' frame_inert_key of
      None \<Rightarrow> False
    | Some st1 \<Rightarrow> section_ptr st1 = None \<and> section_data st1 = section_data frame_inert_key)"
proof -
  have a: "parse_action frame_after_first = NEW_LINE \<and>
           section_data frame_after_first ''X'' = Some first_X \<and>
           (\<forall>c\<in>set ''X''. plain_char c)"
    by (simp add: frame_after_first_def init_frame_def parser_with_def new_parser_def
        plain_char_def special_characters_def)
  have t: "text_second_declaration = CHR ''['' # ''X'' @ CHR '']'' # (newline # ''k=2'' @ [newline] @ ''j=3'')"
    by (simp add: text_second_declaration_def)
  have ev: "case parse_loop (load 0 Map.empty) text_second_declaration frame_after_first of
      None \<Rightarrow> False
    | Some st' \<Rightarrow>
        messages st' =
          [''Error at line '' @ [sq] @ ''3'' @ [sq] @ '', character at '' @ [sq] @ ''3'' @ [sq]
             @ '' : Section '' @ [dq] @ ''X'' @ [dq] @ '' already exist.'']"
    by code_simp
  have run: "case parse_loop (load 0 Map.empty) text_second_declaration frame_after_first of
      None \<Rightarrow> False
    | Some st' \<Rightarrow>
        section_data st' ''X'' = Some first_X \<and>
        \<not> fst (hasKey (object_of st') ''X'' ''j'') \<and>
        messages st' =
          [''Error at line '' @ [sq] @ ''3'' @ [sq] @ '', character at '' @ [sq] @ ''3'' @ [sq]
             @ '' : Section '' @ [dq] @ ''X'' @ [dq] @ '' already exist.'']"
  proof (cases "parse_loop (load 0 Map.empty) text_second_declaration frame_after_first")
    case None
    with ev show ?thesis by simp
  next
    case (Some st')
    from a redeclared_section_keeps_first [of frame_after_first "''X''" first_X 0 Map.empty]
    have "\<forall>rest st'. parse_loop (load 0 Map.empty) (CHR ''['' # ''X'' @ CHR '']'' # rest) frame_after_first = Some st' \<longrightarrow>
          section_data st' ''X'' = Some first_X \<and>
          (\<forall>k. fst (hasKey (object_of st') ''X'' k) = fst (hasKey (object_of frame_after_first) ''X'' k))"
      by blast
    with Some t have "section_data st' ''X'' = Some first_X \<and>
          (\<forall>k. fst (hasKey (object_of st') ''X'' k) = fst (hasKey (object_of frame_after_first) ''X'' k))"
      by metis
    moreover have "\<not> fst (hasKey (object_of frame_after_first) ''X'' ''j'')"
      by (simp add: hasKey_def object_of_def frame_after_first_def init_frame_def parser_with_def
          new_parser_def first_X_def)
    ultimately show ?thesis using Some ev by simp
  qed
  have p: "section_ptr frame_inert_key = None"
    by (simp add: frame_inert_key_def duplicate_header_frame_def)
  have sw: "switch_char (load 0 Map.empty) CHR ''='' frame_inert_key = Some (on_equals CHR ''='' frame_inert_key)"
    by (simp add: switch_char_def)
  from p sw redeclared_section_keeps_first
    [where ?st0.0 = frame_inert_key and c = "CHR ''=''" and inc = "load 0 Map.empty"
       and ?st1.0 = "on_equals CHR ''='' frame_inert_key"]
  have "section_ptr (on_equals CHR ''='' frame_inert_key) = None \<and>
        section_data (on_equals CHR ''='' frame_inert_key) = section_data frame_inert_key"
    by simp
  with a run p sw show ?thesis by simp
qed

text \<open>
  C6. The body of a redeclared section is not wholly discarded. \<^verbatim>\<open>PushAttribute\<close> and
  \<^verbatim>\<open>PushInheritance\<close> clear their buffer only under the test that the section pointer is not
  null, so the attribute \<open>x\<close> of the rejected header \<^verbatim>\<open>[a] = x\<close> stays in the buffer and the
  next section \<open>c\<close>, declared with attribute \<open>y\<close>, gets the attribute \<open>xy\<close>; in the same way the
  base \<open>b\<close> named by the rejected header \<^verbatim>\<open>[a] : b\<close> turns the reference of \<open>c\<close> to \<open>a\<close> into a
  reference to \<open>ba\<close>, which is dropped.
\<close>

theorem duplicate_header_text_leaks:
  "map_option (\<lambda>p. (map_option attributes (section_data p ''c''),
                     map_option attributes (section_data p ''a''), length (messages p)))
     (load 1 (file_system ''f'' text_duplicate_with_attribute) ''f'' new_parser) =
   Some (Some [''xy''], Some [], 1) \<and>
   map_option (\<lambda>p. (map_option inheritances (section_data p ''c''), messages p))
     (load 1 (file_system ''f'' text_duplicate_with_inheritance) ''f'' new_parser) =
   Some (Some [],
     [''Error at line '' @ [sq] @ ''2'' @ [sq] @ '', character at '' @ [sq] @ ''3'' @ [sq]
        @ '' : Section '' @ [dq] @ ''a'' @ [dq] @ '' already exist.'',
      ''Error at line '' @ [sq] @ ''3'' @ [sq] @ '', character at '' @ [sq] @ ''8'' @ [sq]
        @ '' : Inherited section '' @ [dq] @ ''ba'' @ [dq] @ '' is not exist!''])"
  by code_simp

section \<open>A redeclared key and a bar in a line comment\<close>

text \<open>
  C3. A key declared twice in one section is reported, and then the newline of the second
  declaration stores the second value: after the parse the key holds the later value.
\<close>

theorem redeclared_key_last_write_wins:
  "map_option (\<lambda>p. (getString (section_data p) ''s'' ''k'' ''d'', messages p))
     (load 1 (file_system ''f'' text_duplicate_key) ''f'' new_parser) =
   Some (''2'',
     [''Error at line '' @ [sq] @ ''3'' @ [sq] @ '', character at '' @ [sq] @ ''3'' @ [sq]
        @ '' : Section '' @ [dq] @ ''s'' @ [dq] @ '' key '' @ [dq] @ ''k'' @ [dq] @ '' already exist.''])"
  by code_simp

text \<open>
  C5. A \<^verbatim>\<open>|\<close> inside a line comment switches to the block comment state, which the newline
  does not leave: the section declared on the next line is lost. Without the \<^verbatim>\<open>|\<close> the same
  file declares it.
\<close>

theorem bar_in_line_comment_swallows_later_lines:
  "map_option (\<lambda>p. (hasSection (section_data p) ''s'', getString (section_data p) ''s'' ''k'' ''d''))
     (load 1 (file_system ''f'' text_bar_in_comment) ''f'' new_parser) = Some (False, ''d'') \<and>
   map_option (\<lambda>p. (hasSection (section_data p) ''s'', getString (section_data p) ''s'' ''k'' ''d''))
     (load 1 (file_system ''f'' text_plain_comment) ''f'' new_parser) = Some (True, ''1'')"
  by code_simp

section \<open>Saving and loading again\<close>

text \<open>
  C7 as stated fails, in two ways. The document parsed from \<^verbatim>\<open>k = "a b"\<close> holds the value
  \<open>a b\<close>; it is saved without quotes, and parsing the saved text gives the value \<open>ab\<close>. In
  the document in which \<open>A\<close> inherits \<open>B\<close> and \<open>C\<close>, saved in the order \<open>A\<close>, \<open>C\<close>, \<open>B\<close>, the
  header of \<open>A\<close> names two sections that the text declares further down; parsing the saved
  text logs two messages and gives \<open>A\<close> no inheritance, so the key \<open>k\<close> that \<open>A\<close> resolved to
  \<open>1\<close> through \<open>B\<close> is not found any more.
\<close>

theorem save_load_not_identity_counterexample:
  "getString (section_data (the (load 1 (file_system ''f'' text_quoted_value) ''f'' new_parser)))
     ''s'' ''k'' ''d'' = ''a b'' \<and>
   getString doc_spaced_value ''s'' ''k'' ''d'' = ''a b'' \<and>
   save [''s''] keys_k doc_spaced_value = ''[s]'' @ [newline] @ ''k = a b'' @ [newline, newline] \<and>
   \<not> Option.is_none (load 1 (file_system ''f'' (save [''s''] keys_k doc_spaced_value)) ''f'' new_parser) \<and>
   getString (section_data (the (load 1 (file_system ''f'' (save [''s''] keys_k doc_spaced_value)) ''f'' new_parser)))
     ''s'' ''k'' ''d'' = ''ab'' \<and>
   inheritances (the (doc_two_bases ''A'')) = [''B'', ''C''] \<and>
   getString doc_two_bases ''A'' ''k'' ''d'' = ''1'' \<and>
   save [''A'', ''C'', ''B''] keys_two_bases doc_two_bases =
     ''[A] : B, C'' @ [newline, newline] @
     ''[C]'' @ [newline] @ ''k = 2'' @ [newline, newline] @
     ''[B]'' @ [newline] @ ''k = 1'' @ [newline, newline] \<and>
   \<not> Option.is_none (load 1 (file_system ''f'' (save [''A'', ''C'', ''B''] keys_two_bases doc_two_bases))
        ''f'' new_parser) \<and>
   inheritances (the (section_data (the (load 1 (file_system ''f''
        (save [''A'', ''C'', ''B''] keys_two_bases doc_two_bases)) ''f'' new_parser)) ''A'')) = [] \<and>
   getString (section_data (the (load 1 (file_system ''f''
        (save [''A'', ''C'', ''B''] keys_two_bases doc_two_bases)) ''f'' new_parser))) ''A'' ''k'' ''d'' = ''d'' \<and>
   length (messages (the (load 1 (file_system ''f''
        (save [''A'', ''C'', ''B''] keys_two_bases doc_two_bases)) ''f'' new_parser))) = 2"
  by code_simp

text \<open>
  The names after the first of an inheritance list: each comma flushes the pending name into
  the section, the last name read stays pending.
\<close>

lemma consumes_more_inheritances:
  assumes "parse_action st = INHERITANCE" and "ignore_current_spaces st"
    and "section_ptr st = Some name" and "section_data st name = Some sec"
    and "inheritance_buf st = b" and "b \<noteq> []" and "section_data st b \<noteq> None"
    and "\<forall>x\<in>set xs. x \<noteq> [] \<and> (\<forall>c\<in>set x. plain_char c) \<and> section_data st x \<noteq> None"
  shows "\<exists>pos. consumes inc (write_rest xs) st
           (st\<lparr>section_data := (section_data st)
                  (name \<mapsto> sec\<lparr>inheritances := inheritances sec @ butlast (b # xs)\<rparr>),
               inheritance_buf := last (b # xs), character_pos := pos\<rparr>)"
  using assms
proof (induction xs arbitrary: st b sec)
  case Nil
  have "st\<lparr>section_data := (section_data st)(name \<mapsto> sec\<lparr>inheritances := inheritances sec @ butlast [b]\<rparr>),
           inheritance_buf := last [b], character_pos := character_pos st\<rparr> = st"
    using Nil.prems by (simp add: map_upd_triv)
  then show ?case using consumes_Nil [of inc st] by (metis write_rest.simps(1))
next
  case (Cons x xs)
  let ?sec1 = "sec\<lparr>inheritances := inheritances sec @ [b]\<rparr>"
  let ?s1 = "st\<lparr>section_data := (section_data st)(name \<mapsto> ?sec1), inheritance_buf := []\<rparr>"
  from Cons.prems have push: "PushInheritance st = ?s1"
    by (auto simp: PushInheritance_def update_section_def)
  from Cons.prems(1) push have c1: "consumes inc '','' st (next_pos ?s1)"
    by (intro consumes_char) (simp_all add: switch_char_def on_comma_def)
  have c2: "consumes inc '' '' (next_pos ?s1) (next_pos (next_pos ?s1))"
    using Cons.prems(1,2) by (intro consumes_space) (simp_all add: next_pos_def)
  let ?s3 = "(next_pos (next_pos ?s1))\<lparr>inheritance_buf := inheritance_buf (next_pos (next_pos ?s1)) @ x,
       character_pos := character_pos (next_pos (next_pos ?s1)) + of_nat (length x)\<rparr>"
  have c3: "consumes inc x (next_pos (next_pos ?s1)) ?s3"
    using Cons.prems by (intro consumes_inheritance_name) (simp_all add: next_pos_def)
  have "\<exists>pos. consumes inc (write_rest xs) ?s3
           (?s3\<lparr>section_data := (section_data ?s3)
                  (name \<mapsto> ?sec1\<lparr>inheritances := inheritances ?sec1 @ butlast (x # xs)\<rparr>),
               inheritance_buf := last (x # xs), character_pos := pos\<rparr>)"
    using Cons.prems by (intro Cons.IH) (auto simp: next_pos_def)
  then obtain pos where c4: "consumes inc (write_rest xs) ?s3
           (?s3\<lparr>section_data := (section_data ?s3)
                  (name \<mapsto> ?sec1\<lparr>inheritances := inheritances ?sec1 @ butlast (x # xs)\<rparr>),
               inheritance_buf := last (x # xs), character_pos := pos\<rparr>)"
    by blast
  have c123: "consumes inc ('','' @ '' '' @ x) st ?s3"
    using c1 c2 c3 by (rule consumes_three)
  from c123 c4 have f: "consumes inc (('','' @ '' '' @ x) @ write_rest xs) st
           (?s3\<lparr>section_data := (section_data ?s3)
                  (name \<mapsto> ?sec1\<lparr>inheritances := inheritances ?sec1 @ butlast (x # xs)\<rparr>),
               inheritance_buf := last (x # xs), character_pos := pos\<rparr>)"
    by (rule consumes_append)
  have e: "?s3\<lparr>section_data := (section_data ?s3)
                  (name \<mapsto> ?sec1\<lparr>inheritances := inheritances ?sec1 @ butlast (x # xs)\<rparr>),
               inheritance_buf := last (x # xs), character_pos := pos\<rparr> =
        st\<lparr>section_data := (section_data st)
                  (name \<mapsto> sec\<lparr>inheritances := inheritances sec @ butlast (b # x # xs)\<rparr>),
               inheritance_buf := last (b # x # xs), character_pos := pos\<rparr>"
    by (simp add: next_pos_def)
  have t: "('','' @ '' '' @ x) @ write_rest xs = write_rest (x # xs)" by simp
  from f show ?case unfolding e t by (rule exI)
qed

lemma consumes_more_attributes:
  assumes "parse_action st = ATTRIBUTE" and "ignore_current_spaces st"
    and "section_ptr st = Some name" and "section_data st name = Some sec"
    and "attribute_buf st = b" and "b \<noteq> []"
    and "\<forall>x\<in>set xs. x \<noteq> [] \<and> (\<forall>c\<in>set x. plain_char c)"
  shows "\<exists>pos. consumes inc (write_rest xs) st
           (st\<lparr>section_data := (section_data st)
                  (name \<mapsto> sec\<lparr>attributes := attributes sec @ butlast (b # xs)\<rparr>),
               attribute_buf := last (b # xs), character_pos := pos\<rparr>)"
  using assms
proof (induction xs arbitrary: st b sec)
  case Nil
  have "st\<lparr>section_data := (section_data st)(name \<mapsto> sec\<lparr>attributes := attributes sec @ butlast [b]\<rparr>),
           attribute_buf := last [b], character_pos := character_pos st\<rparr> = st"
    using Nil.prems by (simp add: map_upd_triv)
  then show ?case using consumes_Nil [of inc st] by (metis write_rest.simps(1))
next
  case (Cons x xs)
  let ?sec1 = "sec\<lparr>attributes := attributes sec @ [b]\<rparr>"
  let ?s1 = "st\<lparr>section_data := (section_data st)(name \<mapsto> ?sec1), attribute_buf := []\<rparr>"
  from Cons.prems have push: "PushAttribute st = ?s1"
    by (auto simp: PushAttribute_def update_section_def)
  from Cons.prems(1) push have c1: "consumes inc '','' st (next_pos ?s1)"
    by (intro consumes_char) (simp_all add: switch_char_def on_comma_def)
  have c2: "consumes inc '' '' (next_pos ?s1) (next_pos (next_pos ?s1))"
    using Cons.prems(1,2) by (intro consumes_space) (simp_all add: next_pos_def)
  let ?s3 = "(next_pos (next_pos ?s1))\<lparr>attribute_buf := attribute_buf (next_pos (next_pos ?s1)) @ x,
       character_pos := character_pos (next_pos (next_pos ?s1)) + of_nat (length x)\<rparr>"
  have c3: "consumes inc x (next_pos (next_pos ?s1)) ?s3"
    using Cons.prems by (intro consumes_attribute_name) (simp_all add: next_pos_def)
  have "\<exists>pos. consumes inc (write_rest xs) ?s3
           (?s3\<lparr>section_data := (section_data ?s3)
                  (name \<mapsto> ?sec1\<lparr>attributes := attributes ?sec1 @ butlast (x # xs)\<rparr>),
               attribute_buf := last (x # xs), character_pos := pos\<rparr>)"
    using Cons.prems by (intro Cons.IH) (auto simp: next_pos_def)
  then obtain pos where c4: "consumes inc (write_rest xs) ?s3
           (?s3\<lparr>section_data := (section_data ?s3)
                  (name \<mapsto> ?sec1\<lparr>attributes := attributes ?sec1 @ butlast (x # xs)\<rparr>),
               attribute_buf := last (x # xs), character_pos := pos\<rparr>)"
    by blast
  have c123: "consumes inc ('','' @ '' '' @ x) st ?s3"
    using c1 c2 c3 by (rule consumes_three)
  from c123 c4 have f: "consumes inc (('','' @ '' '' @ x) @ write_rest xs) st
           (?s3\<lparr>section_data := (section_data ?s3)
                  (name \<mapsto> ?sec1\<lparr>attributes := attributes ?sec1 @ butlast (x # xs)\<rparr>),
               attribute_buf := last (x # xs), character_pos := pos\<rparr>)"
    by (rule consumes_append)
  have e: "?s3\<lparr>section_data := (section_data ?s3)
                  (name \<mapsto> ?sec1\<lparr>attributes := attributes ?sec1 @ butlast (x # xs)\<rparr>),
               attribute_buf := last (x # xs), character_pos := pos\<rparr> =
        st\<lparr>section_data := (section_data st)
                  (name \<mapsto> sec\<lparr>attributes := attributes sec @ butlast (b # x # xs)\<rparr>),
               attribute_buf := last (b # x # xs), character_pos := pos\<rparr>"
    by (simp add: next_pos_def)
  have t: "('','' @ '' '' @ x) @ write_rest xs = write_rest (x # xs)" by simp
  from f show ?case unfolding e t by (rule exI)
qed

text \<open>The header \<^verbatim>\<open>[name]\<close> of a section that does not exist yet.\<close>

lemma consumes_new_header:
  assumes ls: "line_start st" and new: "section_data st name = None"
    and pl: "\<forall>c\<in>set name. plain_char c"
  shows "\<exists>pos. consumes inc (CHR ''['' # name @ '']'') st
           (st\<lparr>parse_action := SECTION, section_buf := name, section_ptr := Some name,
               section_data := (section_data st)(name \<mapsto> empty_Section),
               character_pos := pos\<rparr>)"
proof -
  from ls have nl: "parse_action st = NEW_LINE" and fl: "ignore_current_spaces st"
    by (simp_all add: line_start_def)
  let ?s1 = "st\<lparr>ignore_current_spaces := False, parse_action := SECTION, section_buf := [],
                section_ptr := None\<rparr>"
  let ?s2 = "(next_pos ?s1)\<lparr>section_buf := section_buf (next_pos ?s1) @ name,
                character_pos := character_pos (next_pos ?s1) + of_nat (length name)\<rparr>"
  from nl have o: "switch_char inc CHR ''['' st = Some ?s1"
    by (simp add: switch_char_def on_open_bracket_def)
  have n: "consumes inc name (next_pos ?s1) ?s2"
    using pl by (intro consumes_section_name) (simp_all add: next_pos_def)
  have c: "switch_char inc CHR '']'' ?s2 = Some (close_section ?s2)"
    by (simp add: switch_char_def on_close_bracket_def next_pos_def)
  have "consumes inc '']'' ?s2 (next_pos (close_section ?s2))"
    using c by (intro consumes_char) simp_all
  with n have "consumes inc (name @ '']'') (next_pos ?s1) (next_pos (close_section ?s2))"
    by (rule consumes_append)
  with o nl have f: "consumes inc (CHR ''['' # name @ '']'') st (next_pos (close_section ?s2))"
    by (intro consumes_Cons [where ?st1.0 = ?s1]) simp_all
  from new fl have e: "next_pos (close_section ?s2) =
      st\<lparr>parse_action := SECTION, section_buf := name, section_ptr := Some name,
          section_data := (section_data st)(name \<mapsto> empty_Section),
          character_pos := character_pos (next_pos (close_section ?s2))\<rparr>"
    by (simp add: close_section_def next_pos_def)
  from f show ?thesis by (subst (asm) e) (rule exI)
qed

text \<open>
  The inheritance part of a header, \<^verbatim>\<open> : base0, base1\<close>, read after \<^verbatim>\<open>]\<close>: all names but the
  last are flushed, the last is pending.
\<close>

lemma consumes_inheritance_list:
  assumes sec: "parse_action st = SECTION" and fl: "ignore_current_spaces st"
    and ptr: "section_ptr st = Some name" and sd: "section_data st name = Some sec"
    and buf: "inheritance_buf st = []" and ne: "inh \<noteq> []"
    and valid: "\<forall>x\<in>set inh. x \<noteq> [] \<and> (\<forall>c\<in>set x. plain_char c) \<and> section_data st x \<noteq> None"
  shows "\<exists>pos. consumes inc ('' : '' @ write_names inh) st
           (st\<lparr>parse_action := INHERITANCE,
               section_data := (section_data st)
                  (name \<mapsto> sec\<lparr>inheritances := inheritances sec @ butlast inh\<rparr>),
               inheritance_buf := last inh, character_pos := pos\<rparr>)"
proof -
  from ne obtain x xs where inh: "inh = x # xs" by (cases inh) auto
  have c1: "consumes inc '' '' st (next_pos st)"
    using sec fl by (intro consumes_space) simp_all
  let ?s2 = "(next_pos st)\<lparr>parse_action := INHERITANCE\<rparr>"
  have c2: "consumes inc '':'' (next_pos st) (next_pos ?s2)"
    using sec by (intro consumes_char) (simp_all add: switch_char_def on_colon_def next_pos_def)
  have c3: "consumes inc '' '' (next_pos ?s2) (next_pos (next_pos ?s2))"
    using fl by (intro consumes_space) (simp_all add: next_pos_def)
  let ?s4 = "next_pos (next_pos ?s2)"
  let ?s5 = "?s4\<lparr>inheritance_buf := inheritance_buf ?s4 @ x,
                character_pos := character_pos ?s4 + of_nat (length x)\<rparr>"
  have c4: "consumes inc x ?s4 ?s5"
    using valid inh by (intro consumes_inheritance_name) (simp_all add: next_pos_def)
  have "\<exists>pos. consumes inc (write_rest xs) ?s5
           (?s5\<lparr>section_data := (section_data ?s5)
                  (name \<mapsto> sec\<lparr>inheritances := inheritances sec @ butlast (x # xs)\<rparr>),
               inheritance_buf := last (x # xs), character_pos := pos\<rparr>)"
    using fl ptr sd buf valid inh
    by (intro consumes_more_inheritances) (auto simp: next_pos_def)
  then obtain pos where c5: "consumes inc (write_rest xs) ?s5
           (?s5\<lparr>section_data := (section_data ?s5)
                  (name \<mapsto> sec\<lparr>inheritances := inheritances sec @ butlast (x # xs)\<rparr>),
               inheritance_buf := last (x # xs), character_pos := pos\<rparr>)"
    by blast
  have "consumes inc ('' '' @ '':'' @ '' '') st ?s4"
    using c1 c2 c3 by (rule consumes_three)
  then have "consumes inc (('' '' @ '':'' @ '' '') @ x) st ?s5"
    using c4 by (rule consumes_append)
  then have f: "consumes inc ((('' '' @ '':'' @ '' '') @ x) @ write_rest xs) st
           (?s5\<lparr>section_data := (section_data ?s5)
                  (name \<mapsto> sec\<lparr>inheritances := inheritances sec @ butlast (x # xs)\<rparr>),
               inheritance_buf := last (x # xs), character_pos := pos\<rparr>)"
    using c5 by (rule consumes_append)
  have e: "?s5\<lparr>section_data := (section_data ?s5)
                  (name \<mapsto> sec\<lparr>inheritances := inheritances sec @ butlast (x # xs)\<rparr>),
               inheritance_buf := last (x # xs), character_pos := pos\<rparr> =
           st\<lparr>parse_action := INHERITANCE,
               section_data := (section_data st)
                  (name \<mapsto> sec\<lparr>inheritances := inheritances sec @ butlast inh\<rparr>),
               inheritance_buf := last inh, character_pos := pos\<rparr>"
    using inh by (simp add: next_pos_def)
  have t: "(('' '' @ '':'' @ '' '') @ x) @ write_rest xs = '' : '' @ write_names inh"
    using inh by (simp add: write_names_def)
  from f show ?thesis unfolding e t by (rule exI)
qed

text \<open>
  The attribute list read after \<^verbatim>\<open>=\<close> in state \<^verbatim>\<open>ATTRIBUTE\<close>: all names but the last are
  flushed, the last is pending.
\<close>

lemma consumes_attribute_list:
  assumes att: "parse_action st = ATTRIBUTE" and fl: "ignore_current_spaces st"
    and ptr: "section_ptr st = Some name" and sd: "section_data st name = Some sec"
    and buf: "attribute_buf st = []" and ne: "attrs \<noteq> []"
    and valid: "\<forall>x\<in>set attrs. x \<noteq> [] \<and> (\<forall>c\<in>set x. plain_char c)"
  shows "\<exists>pos. consumes inc ('' '' @ write_names attrs) st
           (st\<lparr>section_data := (section_data st)
                  (name \<mapsto> sec\<lparr>attributes := attributes sec @ butlast attrs\<rparr>),
               attribute_buf := last attrs, character_pos := pos\<rparr>)"
proof -
  from ne obtain x xs where attrs: "attrs = x # xs" by (cases attrs) auto
  have c1: "consumes inc '' '' st (next_pos st)"
    using att fl by (intro consumes_space) simp_all
  let ?s4 = "next_pos st"
  let ?s5 = "?s4\<lparr>attribute_buf := attribute_buf ?s4 @ x,
                character_pos := character_pos ?s4 + of_nat (length x)\<rparr>"
  have c4: "consumes inc x ?s4 ?s5"
    using valid attrs att by (intro consumes_attribute_name) (simp_all add: next_pos_def)
  have "\<exists>pos. consumes inc (write_rest xs) ?s5
           (?s5\<lparr>section_data := (section_data ?s5)
                  (name \<mapsto> sec\<lparr>attributes := attributes sec @ butlast (x # xs)\<rparr>),
               attribute_buf := last (x # xs), character_pos := pos\<rparr>)"
    using att fl ptr sd buf valid attrs
    by (intro consumes_more_attributes) (auto simp: next_pos_def)
  then obtain pos where c5: "consumes inc (write_rest xs) ?s5
           (?s5\<lparr>section_data := (section_data ?s5)
                  (name \<mapsto> sec\<lparr>attributes := attributes sec @ butlast (x # xs)\<rparr>),
               attribute_buf := last (x # xs), character_pos := pos\<rparr>)"
    by blast
  have "consumes inc ('' '' @ x) st ?s5"
    using c1 c4 by (rule consumes_append)
  then have f: "consumes inc (('' '' @ x) @ write_rest xs) st
           (?s5\<lparr>section_data := (section_data ?s5)
                  (name \<mapsto> sec\<lparr>attributes := attributes sec @ butlast (x # xs)\<rparr>),
               attribute_buf := last (x # xs), character_pos := pos\<rparr>)"
    using c5 by (rule consumes_append)
  have e: "?s5\<lparr>section_data := (section_data ?s5)
                  (name \<mapsto> sec\<lparr>attributes := attributes sec @ butlast (x # xs)\<rparr>),
               attribute_buf := last (x # xs), character_pos := pos\<rparr> =
           st\<lparr>section_data := (section_data st)
                  (name \<mapsto> sec\<lparr>attributes := attributes sec @ butlast attrs\<rparr>),
               attribute_buf := last attrs, character_pos := pos\<rparr>"
    using attrs by (simp add: next_pos_def)
  have t: "('' '' @ x) @ write_rest xs = '' '' @ write_names attrs"
    using attrs by (simp add: write_names_def)
  from f show ?thesis unfolding e t by (rule exI)
qed

text \<open>
  After \<^verbatim>\<open>[name]\<close> and the inheritance part, if any: both the \<^verbatim>\<open>=\<close> that opens the attributes
  and the newline that ends the header leave the section with the whole inheritance list.
\<close>

lemma after_inheritances:
  assumes sec: "parse_action S = SECTION" and fl: "ignore_current_spaces S"
    and ptr: "section_ptr S = Some name" and sd: "section_data S name = Some sec"
    and none: "inheritances sec = []" and buf: "inheritance_buf S = []"
    and valid: "\<forall>x\<in>set inh. x \<noteq> [] \<and> (\<forall>c\<in>set x. plain_char c) \<and> section_data S x \<noteq> None"
  shows "\<exists>R. consumes inc (if inh \<noteq> [] then '' : '' @ write_names inh else []) S R \<and>
           (\<exists>pos. consumes inc '' ='' R
              (S\<lparr>section_data := (section_data S)(name \<mapsto> sec\<lparr>inheritances := inh\<rparr>),
                  parse_action := ATTRIBUTE, character_pos := pos\<rparr>)) \<and>
           consumes inc [newline] R
              (S\<lparr>section_data := (section_data S)(name \<mapsto> sec\<lparr>inheritances := inh\<rparr>),
                  parse_action := NEW_LINE, character_pos := 1, line := line S + 1\<rparr>)"
proof (cases "inh = []")
  case True
  have same: "(section_data S)(name \<mapsto> sec\<lparr>inheritances := inh\<rparr>) = section_data S"
    using True none sd by (simp add: map_upd_triv)
  have c0: "consumes inc (if inh \<noteq> [] then '' : '' @ write_names inh else []) S S"
    using True by (simp add: consumes_Nil)
  have c1: "consumes inc '' '' S (next_pos S)"
    using sec fl by (intro consumes_space) simp_all
  have c2: "consumes inc ''='' (next_pos S) (next_pos ((next_pos S)\<lparr>parse_action := ATTRIBUTE\<rparr>))"
    using sec by (intro consumes_char) (simp_all add: switch_char_def on_equals_def next_pos_def)
  from c1 c2 have "consumes inc ('' '' @ ''='') S (next_pos ((next_pos S)\<lparr>parse_action := ATTRIBUTE\<rparr>))"
    by (rule consumes_append)
  moreover have "next_pos ((next_pos S)\<lparr>parse_action := ATTRIBUTE\<rparr>) =
      S\<lparr>section_data := (section_data S)(name \<mapsto> sec\<lparr>inheritances := inh\<rparr>),
         parse_action := ATTRIBUTE, character_pos := character_pos S + 1 + 1\<rparr>"
    unfolding same by (simp add: next_pos_def)
  ultimately have a: "\<exists>pos. consumes inc '' ='' S
              (S\<lparr>section_data := (section_data S)(name \<mapsto> sec\<lparr>inheritances := inh\<rparr>),
                  parse_action := ATTRIBUTE, character_pos := pos\<rparr>)"
    by (metis append_Cons append_Nil)
  have "consumes inc [newline] S (next_pos (on_newline S))"
    by (intro consumes_char) (simp_all add: switch_char_def)
  moreover have "next_pos (on_newline S) =
      S\<lparr>section_data := (section_data S)(name \<mapsto> sec\<lparr>inheritances := inh\<rparr>),
         parse_action := NEW_LINE, character_pos := 1, line := line S + 1\<rparr>"
    unfolding same using sec fl by (simp add: on_newline_def next_pos_def Let_def)
  ultimately have b: "consumes inc [newline] S
              (S\<lparr>section_data := (section_data S)(name \<mapsto> sec\<lparr>inheritances := inh\<rparr>),
                  parse_action := NEW_LINE, character_pos := 1, line := line S + 1\<rparr>)"
    by simp
  from c0 a b show ?thesis by blast
next
  case False
  then have bl: "butlast inh @ [last inh] = inh" by simp
  from False valid have lv: "last inh \<noteq> []" "section_data S (last inh) \<noteq> None"
    using last_in_set by blast+
  from consumes_inheritance_list [OF sec fl ptr sd buf False valid, of inc] none
  obtain pos where c0: "consumes inc ('' : '' @ write_names inh) S
           (S\<lparr>parse_action := INHERITANCE,
               section_data := (section_data S)(name \<mapsto> sec\<lparr>inheritances := butlast inh\<rparr>),
               inheritance_buf := last inh, character_pos := pos\<rparr>)"
    by auto
  let ?R = "S\<lparr>parse_action := INHERITANCE,
               section_data := (section_data S)(name \<mapsto> sec\<lparr>inheritances := butlast inh\<rparr>),
               inheritance_buf := last inh, character_pos := pos\<rparr>"
  have push: "\<And>p. PushInheritance (?R\<lparr>character_pos := p\<rparr>) =
      S\<lparr>parse_action := INHERITANCE,
        section_data := (section_data S)(name \<mapsto> sec\<lparr>inheritances := inh\<rparr>),
        character_pos := p\<rparr>"
    using ptr buf lv bl by (auto simp: PushInheritance_def update_section_def)
  have c1: "consumes inc '' '' ?R (next_pos ?R)"
    using fl by (intro consumes_space) simp_all
  have np: "next_pos ?R = ?R\<lparr>character_pos := pos + 1\<rparr>" by (simp add: next_pos_def)
  have "switch_char inc CHR ''='' (next_pos ?R) =
        Some ((PushInheritance (?R\<lparr>character_pos := pos + 1\<rparr>))\<lparr>parse_action := ATTRIBUTE\<rparr>)"
    unfolding np by (simp add: switch_char_def on_equals_def)
  then have c2: "consumes inc ''='' (next_pos ?R)
      (next_pos ((PushInheritance (?R\<lparr>character_pos := pos + 1\<rparr>))\<lparr>parse_action := ATTRIBUTE\<rparr>))"
    by (intro consumes_char) (simp_all add: next_pos_def)
  from c1 c2 have "consumes inc ('' '' @ ''='') ?R
      (next_pos ((PushInheritance (?R\<lparr>character_pos := pos + 1\<rparr>))\<lparr>parse_action := ATTRIBUTE\<rparr>))"
    by (rule consumes_append)
  moreover have "next_pos ((PushInheritance (?R\<lparr>character_pos := pos + 1\<rparr>))\<lparr>parse_action := ATTRIBUTE\<rparr>) =
      S\<lparr>section_data := (section_data S)(name \<mapsto> sec\<lparr>inheritances := inh\<rparr>),
         parse_action := ATTRIBUTE, character_pos := pos + 1 + 1\<rparr>"
    unfolding push by (simp add: next_pos_def)
  ultimately have a: "\<exists>p. consumes inc '' ='' ?R
              (S\<lparr>section_data := (section_data S)(name \<mapsto> sec\<lparr>inheritances := inh\<rparr>),
                  parse_action := ATTRIBUTE, character_pos := p\<rparr>)"
    by (metis append_Cons append_Nil)
  have "consumes inc [newline] ?R (next_pos (on_newline ?R))"
    by (intro consumes_char) (simp_all add: switch_char_def)
  moreover have "next_pos (on_newline ?R) =
      S\<lparr>section_data := (section_data S)(name \<mapsto> sec\<lparr>inheritances := inh\<rparr>),
         parse_action := NEW_LINE, character_pos := 1, line := line S + 1\<rparr>"
    using push [of pos] fl by (simp add: on_newline_def next_pos_def Let_def)
  ultimately have b: "consumes inc [newline] ?R
              (S\<lparr>section_data := (section_data S)(name \<mapsto> sec\<lparr>inheritances := inh\<rparr>),
                  parse_action := NEW_LINE, character_pos := 1, line := line S + 1\<rparr>)"
    by simp
  from c0 False have "consumes inc (if inh \<noteq> [] then '' : '' @ write_names inh else []) S ?R"
    by simp
  with a b show ?thesis by blast
qed

text \<open>
  The header line of a new section as \<^verbatim>\<open>save\<close> writes it, with its newline: the section is
  created with the inheritance and attribute lists of the header and no values.
\<close>

lemma consumes_header_line:
  assumes ls: "line_start st" and new: "section_data st name = None"
    and pl: "\<forall>c\<in>set name. plain_char c"
    and vinh: "\<forall>x\<in>set inh. x \<noteq> [] \<and> (\<forall>c\<in>set x. plain_char c) \<and>
                 (section_data st x \<noteq> None \<or> x = name)"
    and vatt: "\<forall>x\<in>set attrs. x \<noteq> [] \<and> (\<forall>c\<in>set x. plain_char c)"
  shows "consumes inc
           ((CHR ''['' # name @ '']'')
            @ (if inh \<noteq> [] then '' : '' @ write_names inh else [])
            @ (if attrs \<noteq> [] then '' = '' @ write_names attrs else [])
            @ [newline]) st
           (st\<lparr>section_data := (section_data st)
                  (name \<mapsto> \<lparr>inheritances = inh, attributes = attrs, values_map = Map.empty\<rparr>),
               section_buf := name, section_ptr := Some name, line := line st + 1,
               character_pos := 1\<rparr>)"
proof -
  from ls have lsf: "parse_action st = NEW_LINE" "ignore_current_spaces st" "key_buf st = []"
    "value_buf st = []" "inheritance_buf st = []" "attribute_buf st = []"
    by (simp_all add: line_start_def)
  from consumes_new_header [OF ls new pl, of inc] obtain pos1 where
    h: "consumes inc (CHR ''['' # name @ '']'') st
           (st\<lparr>parse_action := SECTION, section_buf := name, section_ptr := Some name,
               section_data := (section_data st)(name \<mapsto> empty_Section),
               character_pos := pos1\<rparr>)"
    by blast
  let ?S = "st\<lparr>parse_action := SECTION, section_buf := name, section_ptr := Some name,
               section_data := (section_data st)(name \<mapsto> empty_Section),
               character_pos := pos1\<rparr>"
  let ?X = "?S\<lparr>section_data := (section_data ?S)(name \<mapsto> empty_Section\<lparr>inheritances := inh\<rparr>)\<rparr>"
  have "\<exists>R. consumes inc (if inh \<noteq> [] then '' : '' @ write_names inh else []) ?S R \<and>
           (\<exists>pos. consumes inc '' ='' R (?X\<lparr>parse_action := ATTRIBUTE, character_pos := pos\<rparr>)) \<and>
           consumes inc [newline] R
              (?X\<lparr>parse_action := NEW_LINE, character_pos := 1, line := line ?S + 1\<rparr>)"
    using lsf vinh
    by (intro after_inheritances [where S = ?S and sec = empty_Section and name = name])
       (auto simp: empty_Section_def)
  then obtain R pos2 where
    i: "consumes inc (if inh \<noteq> [] then '' : '' @ write_names inh else []) ?S R"
    and e: "consumes inc '' ='' R (?X\<lparr>parse_action := ATTRIBUTE, character_pos := pos2\<rparr>)"
    and n: "consumes inc [newline] R
              (?X\<lparr>parse_action := NEW_LINE, character_pos := 1, line := line ?S + 1\<rparr>)"
    by blast
  show ?thesis
  proof (cases "attrs = []")
    case True
    from h i n have "consumes inc ((CHR ''['' # name @ '']'')
            @ (if inh \<noteq> [] then '' : '' @ write_names inh else []) @ [newline]) st
         (?X\<lparr>parse_action := NEW_LINE, character_pos := 1, line := line ?S + 1\<rparr>)"
      by (rule consumes_three)
    moreover have "?X\<lparr>parse_action := NEW_LINE, character_pos := 1, line := line ?S + 1\<rparr> =
        st\<lparr>section_data := (section_data st)
                  (name \<mapsto> \<lparr>inheritances = inh, attributes = attrs, values_map = Map.empty\<rparr>),
               section_buf := name, section_ptr := Some name, line := line st + 1,
               character_pos := 1\<rparr>"
      using True lsf by (simp add: empty_Section_def)
    ultimately show ?thesis using True by simp
  next
    case False
    then have bl: "butlast attrs @ [last attrs] = attrs" by simp
    from False vatt have lv: "last attrs \<noteq> []" using last_in_set by blast
    let ?U = "?X\<lparr>parse_action := ATTRIBUTE, character_pos := pos2\<rparr>"
    have "\<exists>pos. consumes inc ('' '' @ write_names attrs) ?U
           (?U\<lparr>section_data := (section_data ?U)
                  (name \<mapsto> (empty_Section\<lparr>inheritances := inh\<rparr>)
                     \<lparr>attributes := attributes (empty_Section\<lparr>inheritances := inh\<rparr>) @ butlast attrs\<rparr>),
               attribute_buf := last attrs, character_pos := pos\<rparr>)"
      using lsf False vatt by (intro consumes_attribute_list) simp_all
    then obtain pos3 where a: "consumes inc ('' '' @ write_names attrs) ?U
           (?U\<lparr>section_data := (section_data ?U)
                  (name \<mapsto> (empty_Section\<lparr>inheritances := inh\<rparr>)
                     \<lparr>attributes := attributes (empty_Section\<lparr>inheritances := inh\<rparr>) @ butlast attrs\<rparr>),
               attribute_buf := last attrs, character_pos := pos3\<rparr>)"
      by blast
    let ?V = "?U\<lparr>section_data := (section_data ?U)
                  (name \<mapsto> (empty_Section\<lparr>inheritances := inh\<rparr>)
                     \<lparr>attributes := attributes (empty_Section\<lparr>inheritances := inh\<rparr>) @ butlast attrs\<rparr>),
               attribute_buf := last attrs, character_pos := pos3\<rparr>"
    have nl: "consumes inc [newline] ?V (next_pos (on_newline ?V))"
      by (intro consumes_char) (simp_all add: switch_char_def)
    have fin: "next_pos (on_newline ?V) =
        st\<lparr>section_data := (section_data st)
                  (name \<mapsto> \<lparr>inheritances = inh, attributes = attrs, values_map = Map.empty\<rparr>),
               section_buf := name, section_ptr := Some name, line := line st + 1,
               character_pos := 1\<rparr>"
      using lsf lv bl
      by (simp add: on_newline_def PushAttribute_def update_section_def next_pos_def Let_def
          empty_Section_def)
    from e a have "consumes inc ('' ='' @ '' '' @ write_names attrs) R ?V"
      by (rule consumes_append)
    then have ea: "consumes inc ('' = '' @ write_names attrs) R ?V" by simp
    from i ea nl have "consumes inc ((if inh \<noteq> [] then '' : '' @ write_names inh else [])
         @ ('' = '' @ write_names attrs) @ [newline]) ?S (next_pos (on_newline ?V))"
      by (rule consumes_three)
    with h have "consumes inc ((CHR ''['' # name @ '']'') @ (if inh \<noteq> [] then '' : '' @ write_names inh else [])
         @ ('' = '' @ write_names attrs) @ [newline]) st (next_pos (on_newline ?V))"
      by (rule consumes_append)
    with False show ?thesis unfolding fin by simp
  qed
qed

text \<open>
  One line \<^verbatim>\<open>key = value\<close> as \<^verbatim>\<open>save\<close> writes it, read in a live section that does not hold
  the key yet: the key is registered with the empty placeholder at \<^verbatim>\<open>=\<close> and the newline
  stores the value.
\<close>

lemma consumes_key_line:
  assumes ls: "line_start st" and ptr: "section_ptr st = Some name"
    and sd: "section_data st name = Some sec" and fresh: "values_map sec k = None"
    and kne: "k \<noteq> []" and kpl: "\<forall>c\<in>set k. plain_char c" and vv: "\<forall>c\<in>set v. value_char c"
  shows "consumes inc (k @ '' = '' @ v @ [newline]) st
           (st\<lparr>section_data := (section_data st)
                  (name \<mapsto> sec\<lparr>values_map := (values_map sec)(k \<mapsto> v)\<rparr>),
               line := line st + 1, character_pos := 1\<rparr>)"
proof -
  from ls have lsf: "parse_action st = NEW_LINE" "ignore_current_spaces st" "key_buf st = []"
    "value_buf st = []" "inheritance_buf st = []" "attribute_buf st = []"
    by (simp_all add: line_start_def)
  from kne obtain c cs where k: "k = c # cs" by (cases k) auto
  with kpl have cp: "plain_char c" and csp: "\<forall>c\<in>set cs. plain_char c" by simp_all
  let ?s1 = "st\<lparr>parse_action := KEY, key_buf := [c]\<rparr>"
  from cp lsf have "switch_char inc c st = Some ?s1"
    by (simp add: switch_char_plain on_default_def)
  then have c1: "consumes inc [c] st (next_pos ?s1)"
    using cp by (intro consumes_char) (simp_all add: plain_not_backslash)
  let ?s2 = "(next_pos ?s1)\<lparr>key_buf := key_buf (next_pos ?s1) @ cs,
               character_pos := character_pos (next_pos ?s1) + of_nat (length cs)\<rparr>"
  have c2: "consumes inc cs (next_pos ?s1) ?s2"
    using csp by (intro consumes_key_name) (simp_all add: next_pos_def)
  have c3: "consumes inc '' '' ?s2 (next_pos ?s2)"
    using lsf by (intro consumes_space) (simp_all add: next_pos_def)
  let ?s4 = "(next_pos ?s2)\<lparr>section_data := (section_data st)
                  (name \<mapsto> sec\<lparr>values_map := (values_map sec)(k \<mapsto> [])\<rparr>),
                parse_action := VALUE\<rparr>"
  have "switch_char inc CHR ''='' (next_pos ?s2) = Some ?s4"
    using ptr sd fresh k
    by (simp add: switch_char_def on_equals_def register_key_def next_pos_def)
  then have c4: "consumes inc ''='' (next_pos ?s2) (next_pos ?s4)"
    by (intro consumes_char) (simp_all add: next_pos_def)
  have c5: "consumes inc '' '' (next_pos ?s4) (next_pos (next_pos ?s4))"
    using lsf by (intro consumes_space) (simp_all add: next_pos_def)
  let ?s6 = "next_pos (next_pos ?s4)"
  have "\<exists>a. (a = VALUE \<or> a = VALUE_ARRAY) \<and>
     consumes inc v ?s6
       (?s6\<lparr>value_buf := value_buf ?s6 @ v, parse_action := a,
           character_pos := character_pos ?s6 + of_nat (length v)\<rparr>)"
    using vv by (intro consumes_value_text) (simp_all add: next_pos_def)
  then obtain a where a: "a = VALUE \<or> a = VALUE_ARRAY"
    and c6: "consumes inc v ?s6
       (?s6\<lparr>value_buf := value_buf ?s6 @ v, parse_action := a,
           character_pos := character_pos ?s6 + of_nat (length v)\<rparr>)"
    by blast
  let ?s7 = "?s6\<lparr>value_buf := value_buf ?s6 @ v, parse_action := a,
           character_pos := character_pos ?s6 + of_nat (length v)\<rparr>"
  have c7: "consumes inc [newline] ?s7 (next_pos (on_newline ?s7))"
    by (intro consumes_char) (simp_all add: switch_char_def)
  have fin: "next_pos (on_newline ?s7) =
      st\<lparr>section_data := (section_data st)
                  (name \<mapsto> sec\<lparr>values_map := (values_map sec)(k \<mapsto> v)\<rparr>),
               line := line st + 1, character_pos := 1\<rparr>"
    using a lsf ptr k
    by (auto simp: on_newline_def commit_value_def update_section_def next_pos_def Let_def)
  from c1 c2 have "consumes inc ([c] @ cs) st ?s2" by (rule consumes_append)
  then have k1: "consumes inc k st ?s2" using k by simp
  from c3 c4 c5 have "consumes inc ('' '' @ ''='' @ '' '') ?s2 ?s6" by (rule consumes_three)
  then have k2: "consumes inc '' = '' ?s2 ?s6" by simp
  from c6 c7 have k3: "consumes inc (v @ [newline]) ?s6 (next_pos (on_newline ?s7))"
    by (rule consumes_append)
  from k1 k2 k3 have "consumes inc (k @ '' = '' @ v @ [newline]) st (next_pos (on_newline ?s7))"
    by (rule consumes_three)
  then show ?thesis unfolding fin .
qed

lemma map_add_restrict_step:
  "k \<notin> set ks \<Longrightarrow> vt k = Some v \<Longrightarrow> (m(k \<mapsto> v)) ++ (vt |` set ks) = m ++ (vt |` set (k # ks))"
  by (rule ext) (auto simp: map_add_def restrict_map_def split: option.splits)

lemma consumes_key_lines:
  assumes "line_start st" and "section_ptr st = Some name" and "section_data st name = Some sec0"
    and "distinct ks"
    and "\<forall>k\<in>set ks. values_map sec0 k = None \<and> k \<noteq> [] \<and> (\<forall>c\<in>set k. plain_char c) \<and>
           (\<exists>v. values_map tgt k = Some v \<and> (\<forall>c\<in>set v. value_char c))"
  shows "\<exists>l p. consumes inc (concat (map (write_value tgt) ks)) st
           (st\<lparr>section_data := (section_data st)
                  (name \<mapsto> sec0\<lparr>values_map := values_map sec0 ++ (values_map tgt |` set ks)\<rparr>),
               line := l, character_pos := p\<rparr>)"
  using assms
proof (induction ks arbitrary: st sec0)
  case Nil
  have "st\<lparr>section_data := (section_data st)
                  (name \<mapsto> sec0\<lparr>values_map := values_map sec0 ++ (values_map tgt |` set [])\<rparr>),
               line := line st, character_pos := character_pos st\<rparr> = st"
    using Nil.prems by (simp add: map_upd_triv)
  moreover have "consumes inc (concat (map (write_value tgt) [])) st st"
    by (simp add: consumes_Nil)
  ultimately show ?case by metis
next
  case (Cons k ks)
  from Cons.prems(5) obtain v where v: "values_map tgt k = Some v" "\<forall>c\<in>set v. value_char c"
    and kf: "values_map sec0 k = None" "k \<noteq> []" "\<forall>c\<in>set k. plain_char c"
    by auto
  let ?sec1 = "sec0\<lparr>values_map := (values_map sec0)(k \<mapsto> v)\<rparr>"
  let ?s1 = "st\<lparr>section_data := (section_data st)(name \<mapsto> ?sec1),
               line := line st + 1, character_pos := 1\<rparr>"
  have c1: "consumes inc (k @ '' = '' @ v @ [newline]) st ?s1"
    using Cons.prems(1,2,3) kf v(2) by (rule consumes_key_line)
  have "\<exists>l p. consumes inc (concat (map (write_value tgt) ks)) ?s1
           (?s1\<lparr>section_data := (section_data ?s1)
                  (name \<mapsto> ?sec1\<lparr>values_map := values_map ?sec1 ++ (values_map tgt |` set ks)\<rparr>),
               line := l, character_pos := p\<rparr>)"
  proof (rule Cons.IH)
    show "line_start ?s1" using Cons.prems(1) by (simp add: line_start_def)
    show "section_ptr ?s1 = Some name" using Cons.prems(2) by simp
    show "section_data ?s1 name = Some ?sec1" by simp
    show "distinct ks" using Cons.prems(4) by simp
    show "\<forall>k\<in>set ks. values_map ?sec1 k = None \<and> k \<noteq> [] \<and> (\<forall>c\<in>set k. plain_char c) \<and>
           (\<exists>v. values_map tgt k = Some v \<and> (\<forall>c\<in>set v. value_char c))"
      using Cons.prems(4,5) by auto
  qed
  then obtain l p where c2: "consumes inc (concat (map (write_value tgt) ks)) ?s1
           (?s1\<lparr>section_data := (section_data ?s1)
                  (name \<mapsto> ?sec1\<lparr>values_map := values_map ?sec1 ++ (values_map tgt |` set ks)\<rparr>),
               line := l, character_pos := p\<rparr>)"
    by blast
  from Cons.prems(4) v(1)
  have m: "(values_map sec0)(k \<mapsto> v) ++ (values_map tgt |` set ks) =
           values_map sec0 ++ (values_map tgt |` set (k # ks))"
    by (intro map_add_restrict_step) simp_all
  have e: "?s1\<lparr>section_data := (section_data ?s1)
                  (name \<mapsto> ?sec1\<lparr>values_map := values_map ?sec1 ++ (values_map tgt |` set ks)\<rparr>),
               line := l, character_pos := p\<rparr> =
        st\<lparr>section_data := (section_data st)
                  (name \<mapsto> sec0\<lparr>values_map := values_map sec0 ++ (values_map tgt |` set (k # ks))\<rparr>),
               line := l, character_pos := p\<rparr>"
    using m by (simp del: set_simps)
  have t: "(k @ '' = '' @ v @ [newline]) @ concat (map (write_value tgt) ks) =
           concat (map (write_value tgt) (k # ks))"
    using v(1) by (simp add: write_value_def)
  from c1 c2 have "consumes inc ((k @ '' = '' @ v @ [newline]) @ concat (map (write_value tgt) ks)) st
           (?s1\<lparr>section_data := (section_data ?s1)
                  (name \<mapsto> ?sec1\<lparr>values_map := values_map ?sec1 ++ (values_map tgt |` set ks)\<rparr>),
               line := l, character_pos := p\<rparr>)"
    by (rule consumes_append)
  then show ?case unfolding e t by blast
qed

text \<open>
  The block \<^verbatim>\<open>save\<close> writes for one section, read where that section does not exist yet and
  its bases do: the section is created with exactly the saved content.
\<close>

lemma consumes_saved_section:
  assumes ls: "line_start st" and new: "section_data st name = None"
    and pl: "plain_name name" and wr: "writable_section tgt"
    and bases: "set (inheritances tgt) \<subseteq> insert name (dom (section_data st))"
    and ks: "distinct ks" "set ks = dom (values_map tgt)"
  shows "\<exists>l. consumes inc (save_section name tgt ks) st
           (st\<lparr>section_data := (section_data st)(name \<mapsto> tgt), section_buf := name,
               section_ptr := Some name, line := l, character_pos := 1\<rparr>)"
proof -
  let ?sec0 = "\<lparr>inheritances = inheritances tgt, attributes = attributes tgt, values_map = Map.empty\<rparr>"
  let ?s1 = "st\<lparr>section_data := (section_data st)(name \<mapsto> ?sec0),
               section_buf := name, section_ptr := Some name, line := line st + 1,
               character_pos := 1\<rparr>"
  let ?header = "(CHR ''['' # name @ '']'')
            @ (if inheritances tgt \<noteq> [] then '' : '' @ write_names (inheritances tgt) else [])
            @ (if attributes tgt \<noteq> [] then '' = '' @ write_names (attributes tgt) else [])
            @ [newline]"
  have c1: "consumes inc ?header st ?s1"
  proof (rule consumes_header_line [OF ls new])
    show "\<forall>c\<in>set name. plain_char c" using pl by (simp add: plain_name_def)
    show "\<forall>x\<in>set (inheritances tgt). x \<noteq> [] \<and> (\<forall>c\<in>set x. plain_char c) \<and>
                 (section_data st x \<noteq> None \<or> x = name)"
      using wr bases by (auto simp: writable_section_def plain_name_def)
    show "\<forall>x\<in>set (attributes tgt). x \<noteq> [] \<and> (\<forall>c\<in>set x. plain_char c)"
      using wr by (auto simp: writable_section_def plain_name_def)
  qed
  have ls1: "line_start ?s1" using ls by (simp add: line_start_def)
  have "\<exists>l p. consumes inc (concat (map (write_value tgt) ks)) ?s1
           (?s1\<lparr>section_data := (section_data ?s1)
                  (name \<mapsto> ?sec0\<lparr>values_map := values_map ?sec0 ++ (values_map tgt |` set ks)\<rparr>),
               line := l, character_pos := p\<rparr>)"
  proof (rule consumes_key_lines [OF ls1])
    show "section_ptr ?s1 = Some name" by simp
    show "section_data ?s1 name = Some ?sec0" by simp
    show "distinct ks" by (rule ks(1))
    show "\<forall>k\<in>set ks. values_map ?sec0 k = None \<and> k \<noteq> [] \<and> (\<forall>c\<in>set k. plain_char c) \<and>
           (\<exists>v. values_map tgt k = Some v \<and> (\<forall>c\<in>set v. value_char c))"
      using wr ks(2) by (auto simp: writable_section_def plain_name_def)
  qed
  then obtain l p where c2: "consumes inc (concat (map (write_value tgt) ks)) ?s1
           (?s1\<lparr>section_data := (section_data ?s1)
                  (name \<mapsto> ?sec0\<lparr>values_map := values_map ?sec0 ++ (values_map tgt |` set ks)\<rparr>),
               line := l, character_pos := p\<rparr>)"
    by blast
  let ?s2 = "?s1\<lparr>section_data := (section_data ?s1)
                  (name \<mapsto> ?sec0\<lparr>values_map := values_map ?sec0 ++ (values_map tgt |` set ks)\<rparr>),
               line := l, character_pos := p\<rparr>"
  have vm: "Map.empty ++ (values_map tgt |` set ks) = values_map tgt"
    using ks(2) by (simp add: restrict_map_def fun_eq_iff domIff)
  have tgt: "?sec0\<lparr>values_map := values_map ?sec0 ++ (values_map tgt |` set ks)\<rparr> = tgt"
    using vm by simp
  have c3: "consumes inc [newline] ?s2 (next_pos (on_newline ?s2))"
    by (intro consumes_char) (simp_all add: switch_char_def)
  have fin: "next_pos (on_newline ?s2) =
      st\<lparr>section_data := (section_data st)(name \<mapsto> tgt), section_buf := name,
         section_ptr := Some name, line := l + 1, character_pos := 1\<rparr>"
    unfolding tgt using ls by (simp add: on_newline_def next_pos_def Let_def line_start_def)
  from c1 c2 c3 have "consumes inc (?header @ concat (map (write_value tgt) ks) @ [newline]) st
      (next_pos (on_newline ?s2))"
    by (rule consumes_three)
  moreover have "?header @ concat (map (write_value tgt) ks) @ [newline] = save_section name tgt ks"
    by (simp add: save_section_def)
  ultimately have "consumes inc (save_section name tgt ks) st
      (st\<lparr>section_data := (section_data st)(name \<mapsto> tgt), section_buf := name,
         section_ptr := Some name, line := l + 1, character_pos := 1\<rparr>)"
    unfolding fin by simp
  then show ?thesis by (rule exI)
qed

lemma map_add_restrict_section:
  "n \<notin> set ns \<Longrightarrow> D n = Some tgt \<Longrightarrow> (m(n \<mapsto> tgt)) ++ (D |` set ns) = m ++ (D |` set (n # ns))"
  by (rule ext) (auto simp: map_add_def restrict_map_def split: option.splits)

text \<open>The whole text of \<^verbatim>\<open>save\<close>, read into a document that has none of the saved sections.\<close>

lemma consumes_saved_sections:
  assumes "line_start st" and "distinct ns" and "\<forall>n\<in>set ns. section_data st n = None"
    and "set ns \<subseteq> dom D" and "writable D"
    and "\<forall>n sec. D n = Some sec \<longrightarrow> distinct (keys_of n) \<and> set (keys_of n) = dom (values_map sec)"
    and "bases_first (dom (section_data st)) ns D"
  shows "\<exists>st2. consumes inc (save ns keys_of D) st st2 \<and> line_start st2 \<and>
           section_data st2 = section_data st ++ (D |` set ns) \<and>
           messages st2 = messages st \<and> current_file st2 = current_file st \<and>
           base_path st2 = base_path st"
  using assms
proof (induction ns arbitrary: st)
  case Nil
  have "consumes inc (save [] keys_of D) st st" by (simp add: save_def consumes_Nil)
  with Nil.prems(1) show ?case by auto
next
  case (Cons n ns)
  from Cons.prems(4) obtain tgt where tgt: "D n = Some tgt" by auto
  with Cons.prems(5) have pn: "plain_name n" and wr: "writable_section tgt"
    by (auto simp: writable_def)
  from tgt Cons.prems(6) have ko: "distinct (keys_of n)" "set (keys_of n) = dom (values_map tgt)"
    by auto
  from tgt Cons.prems(7) have bs: "set (inheritances tgt) \<subseteq> insert n (dom (section_data st))"
    and bf: "bases_first (insert n (dom (section_data st))) ns D"
    by simp_all
  from Cons.prems(3) have new: "section_data st n = None" by simp
  from consumes_saved_section [OF Cons.prems(1) new pn wr bs ko, of inc]
  obtain l where c1: "consumes inc (save_section n tgt (keys_of n)) st
           (st\<lparr>section_data := (section_data st)(n \<mapsto> tgt), section_buf := n,
               section_ptr := Some n, line := l, character_pos := 1\<rparr>)"
    by blast
  let ?s1 = "st\<lparr>section_data := (section_data st)(n \<mapsto> tgt), section_buf := n,
               section_ptr := Some n, line := l, character_pos := 1\<rparr>"
  have "\<exists>st2. consumes inc (save ns keys_of D) ?s1 st2 \<and> line_start st2 \<and>
           section_data st2 = section_data ?s1 ++ (D |` set ns) \<and>
           messages st2 = messages ?s1 \<and> current_file st2 = current_file ?s1 \<and>
           base_path st2 = base_path ?s1"
  proof (rule Cons.IH)
    show "line_start ?s1" using Cons.prems(1) by (simp add: line_start_def)
    show "distinct ns" using Cons.prems(2) by simp
    show "\<forall>m\<in>set ns. section_data ?s1 m = None" using Cons.prems(2,3) by auto
    show "set ns \<subseteq> dom D" using Cons.prems(4) by simp
    show "writable D" by (rule Cons.prems(5))
    show "\<forall>n sec. D n = Some sec \<longrightarrow> distinct (keys_of n) \<and> set (keys_of n) = dom (values_map sec)"
      by (rule Cons.prems(6))
    show "bases_first (dom (section_data ?s1)) ns D" using bf by simp
  qed
  then obtain st2 where c2: "consumes inc (save ns keys_of D) ?s1 st2" and l2: "line_start st2"
    and d2: "section_data st2 = section_data ?s1 ++ (D |` set ns)"
    and r2: "messages st2 = messages st" "current_file st2 = current_file st"
      "base_path st2 = base_path st"
    by auto
  from Cons.prems(2) tgt have "(section_data st)(n \<mapsto> tgt) ++ (D |` set ns) =
      section_data st ++ (D |` set (n # ns))"
    by (intro map_add_restrict_section) simp_all
  with d2 have d: "section_data st2 = section_data st ++ (D |` set (n # ns))" by simp
  from c1 c2 have "consumes inc (save_section n tgt (keys_of n) @ save ns keys_of D) st st2"
    by (rule consumes_append)
  moreover have "save_section n tgt (keys_of n) @ save ns keys_of D = save (n # ns) keys_of D"
    using tgt by (simp add: save_def)
  ultimately have "consumes inc (save (n # ns) keys_of D) st st2" by simp
  with l2 d r2 show ?case by blast
qed

text \<open>
  When \<^verbatim>\<open>save\<close> visits every section after the sections it inherits from, loading the saved
  text into a parser with an empty document gives the saved document back, and no message.
\<close>

lemma save_load_bases_first:
  "writable D \<and> visits names keys_of D \<and> bases_first {} names D \<and> section_data p = Map.empty \<longrightarrow>
     (\<exists>p'. load (Suc n) (fs(path \<mapsto> save names keys_of D)) path p = Some p' \<and>
           section_data p' = D \<and> messages p' = messages p)"
proof
  assume a: "writable D \<and> visits names keys_of D \<and> bases_first {} names D \<and> section_data p = Map.empty"
  let ?fs = "fs(path \<mapsto> save names keys_of D)"
  let ?st0 = "init_frame (p\<lparr>current_file := path\<rparr>)"
  from a have v: "distinct names" "set names = dom D"
    "\<forall>n sec. D n = Some sec \<longrightarrow> distinct (keys_of n) \<and> set (keys_of n) = dom (values_map sec)"
    by (simp_all add: visits_def)
  have ls0: "line_start ?st0" by (simp add: line_start_def init_frame_def)
  have sd0: "section_data ?st0 = Map.empty" using a by (simp add: init_frame_def)
  have "\<exists>st2. consumes (load n ?fs) (save names keys_of D) ?st0 st2 \<and> line_start st2 \<and>
           section_data st2 = section_data ?st0 ++ (D |` set names) \<and>
           messages st2 = messages ?st0 \<and> current_file st2 = current_file ?st0 \<and>
           base_path st2 = base_path ?st0"
  proof (rule consumes_saved_sections [OF ls0 v(1)])
    show "\<forall>n\<in>set names. section_data ?st0 n = None" using sd0 by simp
    show "set names \<subseteq> dom D" using v(2) by simp
    show "writable D" using a by simp
    show "\<forall>n sec. D n = Some sec \<longrightarrow> distinct (keys_of n) \<and> set (keys_of n) = dom (values_map sec)"
      by (rule v(3))
    show "bases_first (dom (section_data ?st0)) names D" using a sd0 by simp
  qed
  then obtain st2 where c: "consumes (load n ?fs) (save names keys_of D) ?st0 st2"
    and l2: "line_start st2" and d2: "section_data st2 = section_data ?st0 ++ (D |` set names)"
    and m2: "messages st2 = messages ?st0"
    by blast
  from c have "parse_loop (load n ?fs) (save names keys_of D @ []) ?st0 = parse_loop (load n ?fs) [] st2"
    unfolding consumes_def by blast
  then have run: "parse_loop (load n ?fs) (save names keys_of D) ?st0 = Some (next_pos (on_newline st2))"
    by (simp add: switch_char_def)
  from d2 sd0 v(2) have "section_data st2 = D"
    by (simp add: restrict_map_def fun_eq_iff domIff)
  with l2 have sd: "section_data (next_pos (on_newline st2)) = D"
    by (simp add: on_newline_def next_pos_def Let_def line_start_def)
  from l2 m2 have ms: "messages (next_pos (on_newline st2)) = messages p"
    by (simp add: on_newline_def next_pos_def Let_def line_start_def init_frame_def)
  from run sd ms
  show "\<exists>p'. load (Suc n) ?fs path p = Some p' \<and> section_data p' = D \<and> messages p' = messages p"
    by (simp add: object_of_def)
qed

text \<open>
  Flushing a pending inheritance name into a live section: the name is appended when it names
  a section of the document; otherwise a message is logged. The pending name is cleared in
  both cases.
\<close>

lemma PushInheritance_absent:
  assumes "section_ptr st = Some name" and "section_data st name = Some sec"
    and "inheritance_buf st = b" and "b \<noteq> []" and "section_data st b = None"
  shows "PushInheritance st =
      st\<lparr>inheritance_buf := [],
         messages := messages st @ [GetErrorLineString st @ ''Inherited section '' @ [dq] @ b @ [dq] @ '' is not exist!'']\<rparr>"
  using assms by (simp add: PushInheritance_def msg_def)

lemma PushInheritance_present:
  assumes "section_ptr st = Some name" and "section_data st name = Some sec"
    and "inheritance_buf st = b" and "b \<noteq> []" and "section_data st b = Some y"
  shows "PushInheritance st =
      st\<lparr>section_data := (section_data st)
                  (name \<mapsto> sec\<lparr>inheritances := inheritances sec @ [b]\<rparr>),
               inheritance_buf := []\<rparr>"
  using assms by (simp add: PushInheritance_def update_section_def)

lemma PushInheritance_live:
  assumes "section_ptr st = Some name" and "section_data st name = Some sec"
    and "inheritance_buf st = b" and "b \<noteq> []"
  shows "\<exists>m. PushInheritance st =
           st\<lparr>section_data := (section_data st)
                  (name \<mapsto> sec\<lparr>inheritances := inheritances sec @ filter (\<lambda>x. x \<in> dom (section_data st)) [b]\<rparr>),
               inheritance_buf := [], messages := messages st @ m\<rparr>"
proof (cases "section_data st b")
  case None
  let ?M = "[GetErrorLineString st @ ''Inherited section '' @ [dq] @ b @ [dq] @ '' is not exist!'']"
  from None have f: "filter (\<lambda>x. x \<in> dom (section_data st)) [b] = []"
    by (simp add: domIff)
  have s: "sec\<lparr>inheritances := inheritances sec @ []\<rparr> = sec" by simp
  have u: "(section_data st)(name \<mapsto> sec) = section_data st"
    using assms(2) by (rule map_upd_triv)
  have "st\<lparr>section_data := (section_data st)
                  (name \<mapsto> sec\<lparr>inheritances := inheritances sec @ filter (\<lambda>x. x \<in> dom (section_data st)) [b]\<rparr>),
         inheritance_buf := [], messages := messages st @ ?M\<rparr> =
        st\<lparr>inheritance_buf := [], messages := messages st @ ?M\<rparr>"
    unfolding f s u by simp
  from trans [OF PushInheritance_absent [OF assms None] this [symmetric]] have P: "PushInheritance st =
        st\<lparr>section_data := (section_data st)
                  (name \<mapsto> sec\<lparr>inheritances := inheritances sec @ filter (\<lambda>x. x \<in> dom (section_data st)) [b]\<rparr>),
         inheritance_buf := [], messages := messages st @ ?M\<rparr>"
    .
  show ?thesis by (rule exI [where x = ?M]) (rule P)
next
  case (Some y)
  then have f: "filter (\<lambda>x. x \<in> dom (section_data st)) [b] = [b]"
    by (simp add: domIff)
  have "st\<lparr>section_data := (section_data st)
                  (name \<mapsto> sec\<lparr>inheritances := inheritances sec @ filter (\<lambda>x. x \<in> dom (section_data st)) [b]\<rparr>),
               inheritance_buf := [], messages := messages st @ []\<rparr> =
        st\<lparr>section_data := (section_data st)
                  (name \<mapsto> sec\<lparr>inheritances := inheritances sec @ [b]\<rparr>),
               inheritance_buf := []\<rparr>"
    unfolding f by simp
  from trans [OF PushInheritance_present [OF assms Some] this [symmetric]] have P: "PushInheritance st =
        st\<lparr>section_data := (section_data st)
                  (name \<mapsto> sec\<lparr>inheritances := inheritances sec @ filter (\<lambda>x. x \<in> dom (section_data st)) [b]\<rparr>),
               inheritance_buf := [], messages := messages st @ []\<rparr>"
    .
  show ?thesis by (rule exI [where x = "[]"]) (rule P)
qed

text \<open>
  The inheritance lists of a header again, now without assuming that the names exist: the
  names that name no section of the document are dropped, each with a message.
\<close>

lemma consumes_more_inheritances_any:
  assumes "parse_action st = INHERITANCE" and "ignore_current_spaces st"
    and "section_ptr st = Some name" and "section_data st name = Some sec"
    and "inheritance_buf st = b" and "b \<noteq> []" and "dom (section_data st) = K"
    and "\<forall>x\<in>set xs. x \<noteq> [] \<and> (\<forall>c\<in>set x. plain_char c)"
  shows "\<exists>pos ms. consumes inc (write_rest xs) st
           (st\<lparr>section_data := (section_data st)
                  (name \<mapsto> sec\<lparr>inheritances := inheritances sec @ filter (\<lambda>x. x \<in> K) (butlast (b # xs))\<rparr>),
               inheritance_buf := last (b # xs), character_pos := pos,
               messages := messages st @ ms\<rparr>)"
  using assms
proof (induction xs arbitrary: st b sec)
  case Nil
  have "st\<lparr>section_data := (section_data st)
              (name \<mapsto> sec\<lparr>inheritances := inheritances sec @ filter (\<lambda>x. x \<in> K) (butlast [b])\<rparr>),
           inheritance_buf := last [b], character_pos := character_pos st,
           messages := messages st @ []\<rparr> = st"
    using Nil.prems by (simp add: map_upd_triv)
  then have "consumes inc (write_rest []) st
     (st\<lparr>section_data := (section_data st)
              (name \<mapsto> sec\<lparr>inheritances := inheritances sec @ filter (\<lambda>x. x \<in> K) (butlast [b])\<rparr>),
           inheritance_buf := last [b], character_pos := character_pos st,
           messages := messages st @ []\<rparr>)"
    using consumes_Nil [of inc st] by simp
  then show ?case by blast
next
  case (Cons x xs)
  let ?sec1 = "sec\<lparr>inheritances := inheritances sec @ filter (\<lambda>x. x \<in> K) [b]\<rparr>"
  from Cons.prems(4,7) have nk: "insert name K = K" by auto
  from PushInheritance_live [OF Cons.prems(3,4,5,6)] obtain m where
    push: "PushInheritance st = st\<lparr>section_data := (section_data st)(name \<mapsto> ?sec1),
             inheritance_buf := [], messages := messages st @ m\<rparr>"
    unfolding Cons.prems(7) by blast
  let ?s1 = "st\<lparr>section_data := (section_data st)(name \<mapsto> ?sec1), inheritance_buf := [],
                messages := messages st @ m\<rparr>"
  from Cons.prems(1) push have c1: "consumes inc '','' st (next_pos ?s1)"
    by (intro consumes_char) (simp_all add: switch_char_def on_comma_def)
  have c2: "consumes inc '' '' (next_pos ?s1) (next_pos (next_pos ?s1))"
    using Cons.prems(1,2) by (intro consumes_space) (simp_all add: next_pos_def)
  let ?s3 = "(next_pos (next_pos ?s1))\<lparr>inheritance_buf := inheritance_buf (next_pos (next_pos ?s1)) @ x,
       character_pos := character_pos (next_pos (next_pos ?s1)) + of_nat (length x)\<rparr>"
  have c3: "consumes inc x (next_pos (next_pos ?s1)) ?s3"
    using Cons.prems by (intro consumes_inheritance_name) (simp_all add: next_pos_def)
  have "\<exists>pos ms. consumes inc (write_rest xs) ?s3
           (?s3\<lparr>section_data := (section_data ?s3)
                  (name \<mapsto> ?sec1\<lparr>inheritances := inheritances ?sec1 @ filter (\<lambda>x. x \<in> K) (butlast (x # xs))\<rparr>),
               inheritance_buf := last (x # xs), character_pos := pos,
               messages := messages ?s3 @ ms\<rparr>)"
  proof (rule Cons.IH)
    show "parse_action ?s3 = INHERITANCE" using Cons.prems(1) by (simp add: next_pos_def)
    show "ignore_current_spaces ?s3" using Cons.prems(2) by (simp add: next_pos_def)
    show "section_ptr ?s3 = Some name" using Cons.prems(3) by (simp add: next_pos_def)
    show "section_data ?s3 name = Some ?sec1" by (simp add: next_pos_def)
    show "inheritance_buf ?s3 = x" by (simp add: next_pos_def)
    show "x \<noteq> []" using Cons.prems(8) by simp
    show "dom (section_data ?s3) = K" using Cons.prems(7) nk by (simp add: next_pos_def)
    show "\<forall>x\<in>set xs. x \<noteq> [] \<and> (\<forall>c\<in>set x. plain_char c)" using Cons.prems(8) by simp
  qed
  then obtain pos ms where c4: "consumes inc (write_rest xs) ?s3
           (?s3\<lparr>section_data := (section_data ?s3)
                  (name \<mapsto> ?sec1\<lparr>inheritances := inheritances ?sec1 @ filter (\<lambda>x. x \<in> K) (butlast (x # xs))\<rparr>),
               inheritance_buf := last (x # xs), character_pos := pos,
               messages := messages ?s3 @ ms\<rparr>)"
    by blast
  have c123: "consumes inc ('','' @ '' '' @ x) st ?s3"
    using c1 c2 c3 by (rule consumes_three)
  from c123 c4 have f: "consumes inc (('','' @ '' '' @ x) @ write_rest xs) st
           (?s3\<lparr>section_data := (section_data ?s3)
                  (name \<mapsto> ?sec1\<lparr>inheritances := inheritances ?sec1 @ filter (\<lambda>x. x \<in> K) (butlast (x # xs))\<rparr>),
               inheritance_buf := last (x # xs), character_pos := pos,
               messages := messages ?s3 @ ms\<rparr>)"
    by (rule consumes_append)
  have e: "?s3\<lparr>section_data := (section_data ?s3)
                  (name \<mapsto> ?sec1\<lparr>inheritances := inheritances ?sec1 @ filter (\<lambda>x. x \<in> K) (butlast (x # xs))\<rparr>),
               inheritance_buf := last (x # xs), character_pos := pos,
               messages := messages ?s3 @ ms\<rparr> =
        st\<lparr>section_data := (section_data st)
                  (name \<mapsto> sec\<lparr>inheritances := inheritances sec @ filter (\<lambda>x. x \<in> K) (butlast (b # x # xs))\<rparr>),
               inheritance_buf := last (b # x # xs), character_pos := pos,
               messages := messages st @ (m @ ms)\<rparr>"
    by (simp add: next_pos_def)
  have t: "('','' @ '' '' @ x) @ write_rest xs = write_rest (x # xs)" by simp
  from f show ?case unfolding e t by blast
qed

lemma consumes_inheritance_list_any:
  assumes sec: "parse_action st = SECTION" and fl: "ignore_current_spaces st"
    and ptr: "section_ptr st = Some name" and sd: "section_data st name = Some sec"
    and buf: "inheritance_buf st = []" and ne: "inh \<noteq> []"
    and K: "dom (section_data st) = K"
    and valid: "\<forall>x\<in>set inh. x \<noteq> [] \<and> (\<forall>c\<in>set x. plain_char c)"
  shows "\<exists>pos ms. consumes inc ('' : '' @ write_names inh) st
           (st\<lparr>parse_action := INHERITANCE,
               section_data := (section_data st)
                  (name \<mapsto> sec\<lparr>inheritances := inheritances sec @ filter (\<lambda>x. x \<in> K) (butlast inh)\<rparr>),
               inheritance_buf := last inh, character_pos := pos,
               messages := messages st @ ms\<rparr>)"
proof -
  from ne obtain x xs where inh: "inh = x # xs" by (cases inh) auto
  have c1: "consumes inc '' '' st (next_pos st)"
    using sec fl by (intro consumes_space) simp_all
  let ?s2 = "(next_pos st)\<lparr>parse_action := INHERITANCE\<rparr>"
  have c2: "consumes inc '':'' (next_pos st) (next_pos ?s2)"
    using sec by (intro consumes_char) (simp_all add: switch_char_def on_colon_def next_pos_def)
  have c3: "consumes inc '' '' (next_pos ?s2) (next_pos (next_pos ?s2))"
    using fl by (intro consumes_space) (simp_all add: next_pos_def)
  let ?s4 = "next_pos (next_pos ?s2)"
  let ?s5 = "?s4\<lparr>inheritance_buf := inheritance_buf ?s4 @ x,
                character_pos := character_pos ?s4 + of_nat (length x)\<rparr>"
  have c4: "consumes inc x ?s4 ?s5"
    using valid inh by (intro consumes_inheritance_name) (simp_all add: next_pos_def)
  have "\<exists>pos ms. consumes inc (write_rest xs) ?s5
           (?s5\<lparr>section_data := (section_data ?s5)
                  (name \<mapsto> sec\<lparr>inheritances := inheritances sec @ filter (\<lambda>x. x \<in> K) (butlast (x # xs))\<rparr>),
               inheritance_buf := last (x # xs), character_pos := pos,
               messages := messages ?s5 @ ms\<rparr>)"
  proof (rule consumes_more_inheritances_any)
    show "parse_action ?s5 = INHERITANCE" by (simp add: next_pos_def)
    show "ignore_current_spaces ?s5" using fl by (simp add: next_pos_def)
    show "section_ptr ?s5 = Some name" using ptr by (simp add: next_pos_def)
    show "section_data ?s5 name = Some sec" using sd by (simp add: next_pos_def)
    show "inheritance_buf ?s5 = x" using buf by (simp add: next_pos_def)
    show "x \<noteq> []" using valid inh by simp
    show "dom (section_data ?s5) = K" using K by (simp add: next_pos_def)
    show "\<forall>x\<in>set xs. x \<noteq> [] \<and> (\<forall>c\<in>set x. plain_char c)" using valid inh by simp
  qed
  then obtain pos ms where c5: "consumes inc (write_rest xs) ?s5
           (?s5\<lparr>section_data := (section_data ?s5)
                  (name \<mapsto> sec\<lparr>inheritances := inheritances sec @ filter (\<lambda>x. x \<in> K) (butlast (x # xs))\<rparr>),
               inheritance_buf := last (x # xs), character_pos := pos,
               messages := messages ?s5 @ ms\<rparr>)"
    by blast
  have "consumes inc ('' '' @ '':'' @ '' '') st ?s4"
    using c1 c2 c3 by (rule consumes_three)
  then have "consumes inc (('' '' @ '':'' @ '' '') @ x) st ?s5"
    using c4 by (rule consumes_append)
  then have f: "consumes inc ((('' '' @ '':'' @ '' '') @ x) @ write_rest xs) st
           (?s5\<lparr>section_data := (section_data ?s5)
                  (name \<mapsto> sec\<lparr>inheritances := inheritances sec @ filter (\<lambda>x. x \<in> K) (butlast (x # xs))\<rparr>),
               inheritance_buf := last (x # xs), character_pos := pos,
               messages := messages ?s5 @ ms\<rparr>)"
    using c5 by (rule consumes_append)
  have e: "?s5\<lparr>section_data := (section_data ?s5)
                  (name \<mapsto> sec\<lparr>inheritances := inheritances sec @ filter (\<lambda>x. x \<in> K) (butlast (x # xs))\<rparr>),
               inheritance_buf := last (x # xs), character_pos := pos,
               messages := messages ?s5 @ ms\<rparr> =
           st\<lparr>parse_action := INHERITANCE,
               section_data := (section_data st)
                  (name \<mapsto> sec\<lparr>inheritances := inheritances sec @ filter (\<lambda>x. x \<in> K) (butlast inh)\<rparr>),
               inheritance_buf := last inh, character_pos := pos,
               messages := messages st @ ms\<rparr>"
    using inh by (simp add: next_pos_def)
  have t: "(('' '' @ '':'' @ '' '') @ x) @ write_rest xs = '' : '' @ write_names inh"
    using inh by (simp add: write_names_def)
  from f show ?thesis unfolding e t by blast
qed

lemma after_inheritances_any:
  assumes sec: "parse_action S = SECTION" and fl: "ignore_current_spaces S"
    and ptr: "section_ptr S = Some name" and sd: "section_data S name = Some sec"
    and none: "inheritances sec = []" and buf: "inheritance_buf S = []"
    and K: "dom (section_data S) = K"
    and valid: "\<forall>x\<in>set inh. x \<noteq> [] \<and> (\<forall>c\<in>set x. plain_char c)"
  shows "\<exists>R. consumes inc (if inh \<noteq> [] then '' : '' @ write_names inh else []) S R \<and>
           (\<exists>pos ms. consumes inc '' ='' R
              (S\<lparr>section_data := (section_data S)
                     (name \<mapsto> sec\<lparr>inheritances := filter (\<lambda>x. x \<in> K) inh\<rparr>),
                  parse_action := ATTRIBUTE, character_pos := pos, messages := messages S @ ms\<rparr>)) \<and>
           (\<exists>ms. consumes inc [newline] R
              (S\<lparr>section_data := (section_data S)
                     (name \<mapsto> sec\<lparr>inheritances := filter (\<lambda>x. x \<in> K) inh\<rparr>),
                  parse_action := NEW_LINE, character_pos := 1, line := line S + 1,
                  messages := messages S @ ms\<rparr>))"
proof (cases "inh = []")
  case True
  from after_inheritances [OF sec fl ptr sd none buf, of "[]" inc]
  obtain R pos where c0: "consumes inc [] S R"
    and a: "consumes inc '' ='' R
              (S\<lparr>section_data := (section_data S)(name \<mapsto> sec\<lparr>inheritances := []\<rparr>),
                  parse_action := ATTRIBUTE, character_pos := pos\<rparr>)"
    and b: "consumes inc [newline] R
              (S\<lparr>section_data := (section_data S)(name \<mapsto> sec\<lparr>inheritances := []\<rparr>),
                  parse_action := NEW_LINE, character_pos := 1, line := line S + 1\<rparr>)"
    by auto
  have ea: "S\<lparr>section_data := (section_data S)(name \<mapsto> sec\<lparr>inheritances := []\<rparr>),
                  parse_action := ATTRIBUTE, character_pos := pos\<rparr> =
            S\<lparr>section_data := (section_data S)
                     (name \<mapsto> sec\<lparr>inheritances := filter (\<lambda>x. x \<in> K) inh\<rparr>),
                  parse_action := ATTRIBUTE, character_pos := pos, messages := messages S @ []\<rparr>"
    using True by simp
  have eb: "S\<lparr>section_data := (section_data S)(name \<mapsto> sec\<lparr>inheritances := []\<rparr>),
                  parse_action := NEW_LINE, character_pos := 1, line := line S + 1\<rparr> =
            S\<lparr>section_data := (section_data S)
                     (name \<mapsto> sec\<lparr>inheritances := filter (\<lambda>x. x \<in> K) inh\<rparr>),
                  parse_action := NEW_LINE, character_pos := 1, line := line S + 1,
                  messages := messages S @ []\<rparr>"
    using True by simp
  from c0 True have c: "consumes inc (if inh \<noteq> [] then '' : '' @ write_names inh else []) S R"
    by simp
  from a have a': "\<exists>pos ms. consumes inc '' ='' R
              (S\<lparr>section_data := (section_data S)
                     (name \<mapsto> sec\<lparr>inheritances := filter (\<lambda>x. x \<in> K) inh\<rparr>),
                  parse_action := ATTRIBUTE, character_pos := pos, messages := messages S @ ms\<rparr>)"
    unfolding ea by blast
  from b have b': "\<exists>ms. consumes inc [newline] R
              (S\<lparr>section_data := (section_data S)
                     (name \<mapsto> sec\<lparr>inheritances := filter (\<lambda>x. x \<in> K) inh\<rparr>),
                  parse_action := NEW_LINE, character_pos := 1, line := line S + 1,
                  messages := messages S @ ms\<rparr>)"
    unfolding eb by blast
  from c a' b' show ?thesis by blast
next
  case False
  then have bl: "butlast inh @ [last inh] = inh" by simp
  have flt: "filter (\<lambda>x. x \<in> K) (butlast inh) @ filter (\<lambda>x. x \<in> K) [last inh] =
             filter (\<lambda>x. x \<in> K) inh"
    unfolding filter_append [symmetric] bl ..
  from False valid have lv: "last inh \<noteq> []" using last_in_set by blast
  from consumes_inheritance_list_any [OF sec fl ptr sd buf False K valid, of inc]
  obtain pos ms0 where c0: "consumes inc ('' : '' @ write_names inh) S
           (S\<lparr>parse_action := INHERITANCE,
               section_data := (section_data S)
                  (name \<mapsto> sec\<lparr>inheritances := inheritances sec @ filter (\<lambda>x. x \<in> K) (butlast inh)\<rparr>),
               inheritance_buf := last inh, character_pos := pos,
               messages := messages S @ ms0\<rparr>)"
    by blast
  let ?sec1 = "sec\<lparr>inheritances := inheritances sec @ filter (\<lambda>x. x \<in> K) (butlast inh)\<rparr>"
  let ?R = "S\<lparr>parse_action := INHERITANCE,
               section_data := (section_data S)(name \<mapsto> ?sec1),
               inheritance_buf := last inh, character_pos := pos,
               messages := messages S @ ms0\<rparr>"
  from sd K have nk: "insert name K = K" by auto
  have domR: "\<And>p. dom (section_data (?R\<lparr>character_pos := p\<rparr>)) = K"
    using K nk by simp
  have push: "\<exists>m. PushInheritance (?R\<lparr>character_pos := p\<rparr>) =
      S\<lparr>parse_action := INHERITANCE,
        section_data := (section_data S)(name \<mapsto> sec\<lparr>inheritances := filter (\<lambda>x. x \<in> K) inh\<rparr>),
        character_pos := p, messages := messages S @ m\<rparr>" for p
  proof -
    have "\<exists>m. PushInheritance (?R\<lparr>character_pos := p\<rparr>) =
           (?R\<lparr>character_pos := p\<rparr>)\<lparr>section_data := (section_data (?R\<lparr>character_pos := p\<rparr>))
                  (name \<mapsto> ?sec1\<lparr>inheritances := inheritances ?sec1 @
                     filter (\<lambda>x. x \<in> dom (section_data (?R\<lparr>character_pos := p\<rparr>))) [last inh]\<rparr>),
               inheritance_buf := [], messages := messages (?R\<lparr>character_pos := p\<rparr>) @ m\<rparr>"
      using ptr lv by (intro PushInheritance_live) simp_all
    then obtain m where m: "PushInheritance (?R\<lparr>character_pos := p\<rparr>) =
           (?R\<lparr>character_pos := p\<rparr>)\<lparr>section_data := (section_data (?R\<lparr>character_pos := p\<rparr>))
                  (name \<mapsto> ?sec1\<lparr>inheritances := inheritances ?sec1 @
                     filter (\<lambda>x. x \<in> K) [last inh]\<rparr>),
               inheritance_buf := [], messages := messages (?R\<lparr>character_pos := p\<rparr>) @ m\<rparr>"
      unfolding domR by blast
    have "(?R\<lparr>character_pos := p\<rparr>)\<lparr>section_data := (section_data (?R\<lparr>character_pos := p\<rparr>))
                  (name \<mapsto> ?sec1\<lparr>inheritances := inheritances ?sec1 @
                     filter (\<lambda>x. x \<in> K) [last inh]\<rparr>),
               inheritance_buf := [], messages := messages (?R\<lparr>character_pos := p\<rparr>) @ m\<rparr> =
          S\<lparr>parse_action := INHERITANCE,
        section_data := (section_data S)(name \<mapsto> sec\<lparr>inheritances := filter (\<lambda>x. x \<in> K) inh\<rparr>),
        character_pos := p, messages := messages S @ (ms0 @ m)\<rparr>"
      using buf none flt by (simp del: filter.simps)
    with m show ?thesis by metis
  qed
  have c1: "consumes inc '' '' ?R (next_pos ?R)"
    using fl by (intro consumes_space) simp_all
  have np: "next_pos ?R = ?R\<lparr>character_pos := pos + 1\<rparr>" by (simp add: next_pos_def)
  from push [of "pos + 1"] obtain m1 where p1: "PushInheritance (?R\<lparr>character_pos := pos + 1\<rparr>) =
      S\<lparr>parse_action := INHERITANCE,
        section_data := (section_data S)(name \<mapsto> sec\<lparr>inheritances := filter (\<lambda>x. x \<in> K) inh\<rparr>),
        character_pos := pos + 1, messages := messages S @ m1\<rparr>"
    by blast
  from push [of pos] obtain m2 where p2: "PushInheritance (?R\<lparr>character_pos := pos\<rparr>) =
      S\<lparr>parse_action := INHERITANCE,
        section_data := (section_data S)(name \<mapsto> sec\<lparr>inheritances := filter (\<lambda>x. x \<in> K) inh\<rparr>),
        character_pos := pos, messages := messages S @ m2\<rparr>"
    by blast
  have Rp: "?R\<lparr>character_pos := pos\<rparr> = ?R" by simp
  note p2' = p2 [unfolded Rp]
  have "switch_char inc CHR ''='' (next_pos ?R) =
        Some ((PushInheritance (?R\<lparr>character_pos := pos + 1\<rparr>))\<lparr>parse_action := ATTRIBUTE\<rparr>)"
    unfolding np by (simp add: switch_char_def on_equals_def)
  then have c2: "consumes inc ''='' (next_pos ?R)
      (next_pos ((PushInheritance (?R\<lparr>character_pos := pos + 1\<rparr>))\<lparr>parse_action := ATTRIBUTE\<rparr>))"
    by (intro consumes_char) (simp_all add: next_pos_def)
  from c1 c2 have "consumes inc ('' '' @ ''='') ?R
      (next_pos ((PushInheritance (?R\<lparr>character_pos := pos + 1\<rparr>))\<lparr>parse_action := ATTRIBUTE\<rparr>))"
    by (rule consumes_append)
  moreover have "next_pos ((PushInheritance (?R\<lparr>character_pos := pos + 1\<rparr>))\<lparr>parse_action := ATTRIBUTE\<rparr>) =
      S\<lparr>section_data := (section_data S)(name \<mapsto> sec\<lparr>inheritances := filter (\<lambda>x. x \<in> K) inh\<rparr>),
         parse_action := ATTRIBUTE, character_pos := pos + 1 + 1, messages := messages S @ m1\<rparr>"
    unfolding p1 by (simp add: next_pos_def)
  ultimately have "consumes inc '' ='' ?R
              (S\<lparr>section_data := (section_data S)(name \<mapsto> sec\<lparr>inheritances := filter (\<lambda>x. x \<in> K) inh\<rparr>),
                  parse_action := ATTRIBUTE, character_pos := pos + 1 + 1, messages := messages S @ m1\<rparr>)"
    by simp
  then have a: "\<exists>p ms. consumes inc '' ='' ?R
              (S\<lparr>section_data := (section_data S)(name \<mapsto> sec\<lparr>inheritances := filter (\<lambda>x. x \<in> K) inh\<rparr>),
                  parse_action := ATTRIBUTE, character_pos := p, messages := messages S @ ms\<rparr>)"
    by blast
  have "consumes inc [newline] ?R (next_pos (on_newline ?R))"
    by (intro consumes_char) (simp_all add: switch_char_def)
  moreover have "next_pos (on_newline ?R) =
      S\<lparr>section_data := (section_data S)(name \<mapsto> sec\<lparr>inheritances := filter (\<lambda>x. x \<in> K) inh\<rparr>),
         parse_action := NEW_LINE, character_pos := 1, line := line S + 1,
         messages := messages S @ m2\<rparr>"
    unfolding on_newline_def Let_def p2' using fl by (simp add: next_pos_def)
  ultimately have "consumes inc [newline] ?R
              (S\<lparr>section_data := (section_data S)(name \<mapsto> sec\<lparr>inheritances := filter (\<lambda>x. x \<in> K) inh\<rparr>),
                  parse_action := NEW_LINE, character_pos := 1, line := line S + 1,
                  messages := messages S @ m2\<rparr>)"
    by simp
  then have b: "\<exists>ms. consumes inc [newline] ?R
              (S\<lparr>section_data := (section_data S)(name \<mapsto> sec\<lparr>inheritances := filter (\<lambda>x. x \<in> K) inh\<rparr>),
                  parse_action := NEW_LINE, character_pos := 1, line := line S + 1,
                  messages := messages S @ ms\<rparr>)"
    by blast
  from c0 False none have "consumes inc (if inh \<noteq> [] then '' : '' @ write_names inh else []) S ?R"
    by simp
  with a b show ?thesis by blast
qed

text \<open>
  The header line and the whole block of a new section: of the inheritance names written in
  the header, the section keeps its own name and the names of the sections that exist when the
  header is read.
\<close>

lemma consumes_header_line_any:
  assumes ls: "line_start st" and new: "section_data st name = None"
    and pl: "\<forall>c\<in>set name. plain_char c"
    and vinh: "\<forall>x\<in>set inh. x \<noteq> [] \<and> (\<forall>c\<in>set x. plain_char c)"
    and vatt: "\<forall>x\<in>set attrs. x \<noteq> [] \<and> (\<forall>c\<in>set x. plain_char c)"
  shows "\<exists>ms. consumes inc
           ((CHR ''['' # name @ '']'')
            @ (if inh \<noteq> [] then '' : '' @ write_names inh else [])
            @ (if attrs \<noteq> [] then '' = '' @ write_names attrs else [])
            @ [newline]) st
           (st\<lparr>section_data := (section_data st)
                  (name \<mapsto> \<lparr>inheritances = filter (\<lambda>x. x \<in> insert name (dom (section_data st))) inh,
                             attributes = attrs, values_map = Map.empty\<rparr>),
               section_buf := name, section_ptr := Some name, line := line st + 1,
               character_pos := 1, messages := messages st @ ms\<rparr>)"
proof -
  let ?K = "insert name (dom (section_data st))"
  from ls have lsf: "parse_action st = NEW_LINE" "ignore_current_spaces st" "key_buf st = []"
    "value_buf st = []" "inheritance_buf st = []" "attribute_buf st = []"
    by (simp_all add: line_start_def)
  from consumes_new_header [OF ls new pl, of inc] obtain pos1 where
    h: "consumes inc (CHR ''['' # name @ '']'') st
           (st\<lparr>parse_action := SECTION, section_buf := name, section_ptr := Some name,
               section_data := (section_data st)(name \<mapsto> empty_Section),
               character_pos := pos1\<rparr>)"
    by blast
  let ?S = "st\<lparr>parse_action := SECTION, section_buf := name, section_ptr := Some name,
               section_data := (section_data st)(name \<mapsto> empty_Section),
               character_pos := pos1\<rparr>"
  let ?X = "?S\<lparr>section_data := (section_data ?S)
              (name \<mapsto> empty_Section\<lparr>inheritances := filter (\<lambda>x. x \<in> ?K) inh\<rparr>)\<rparr>"
  have "\<exists>R. consumes inc (if inh \<noteq> [] then '' : '' @ write_names inh else []) ?S R \<and>
           (\<exists>pos ms. consumes inc '' ='' R
              (?X\<lparr>parse_action := ATTRIBUTE, character_pos := pos, messages := messages ?S @ ms\<rparr>)) \<and>
           (\<exists>ms. consumes inc [newline] R
              (?X\<lparr>parse_action := NEW_LINE, character_pos := 1, line := line ?S + 1,
                  messages := messages ?S @ ms\<rparr>))"
    using lsf vinh
    by (intro after_inheritances_any [where S = ?S and sec = empty_Section and name = name])
       (auto simp: empty_Section_def)
  then obtain R pos2 ms2 ms3 where
    i: "consumes inc (if inh \<noteq> [] then '' : '' @ write_names inh else []) ?S R"
    and e: "consumes inc '' ='' R
              (?X\<lparr>parse_action := ATTRIBUTE, character_pos := pos2, messages := messages ?S @ ms2\<rparr>)"
    and n: "consumes inc [newline] R
              (?X\<lparr>parse_action := NEW_LINE, character_pos := 1, line := line ?S + 1,
                  messages := messages ?S @ ms3\<rparr>)"
    by blast
  show ?thesis
  proof (cases "attrs = []")
    case True
    from h i n have "consumes inc ((CHR ''['' # name @ '']'')
            @ (if inh \<noteq> [] then '' : '' @ write_names inh else []) @ [newline]) st
         (?X\<lparr>parse_action := NEW_LINE, character_pos := 1, line := line ?S + 1,
              messages := messages ?S @ ms3\<rparr>)"
      by (rule consumes_three)
    moreover have "?X\<lparr>parse_action := NEW_LINE, character_pos := 1, line := line ?S + 1,
              messages := messages ?S @ ms3\<rparr> =
        st\<lparr>section_data := (section_data st)
                  (name \<mapsto> \<lparr>inheritances = filter (\<lambda>x. x \<in> ?K) inh, attributes = attrs,
                             values_map = Map.empty\<rparr>),
               section_buf := name, section_ptr := Some name, line := line st + 1,
               character_pos := 1, messages := messages st @ ms3\<rparr>"
      using True lsf by (simp add: empty_Section_def)
    ultimately have "consumes inc
           ((CHR ''['' # name @ '']'')
            @ (if inh \<noteq> [] then '' : '' @ write_names inh else [])
            @ (if attrs \<noteq> [] then '' = '' @ write_names attrs else [])
            @ [newline]) st
           (st\<lparr>section_data := (section_data st)
                  (name \<mapsto> \<lparr>inheritances = filter (\<lambda>x. x \<in> ?K) inh, attributes = attrs,
                             values_map = Map.empty\<rparr>),
               section_buf := name, section_ptr := Some name, line := line st + 1,
               character_pos := 1, messages := messages st @ ms3\<rparr>)"
      using True by simp
    then show ?thesis by (rule exI)
  next
    case False
    then have bl: "butlast attrs @ [last attrs] = attrs" by simp
    from False vatt have lv: "last attrs \<noteq> []" using last_in_set by blast
    let ?I = "empty_Section\<lparr>inheritances := filter (\<lambda>x. x \<in> ?K) inh\<rparr>"
    let ?U = "?X\<lparr>parse_action := ATTRIBUTE, character_pos := pos2, messages := messages ?S @ ms2\<rparr>"
    have "\<exists>pos. consumes inc ('' '' @ write_names attrs) ?U
           (?U\<lparr>section_data := (section_data ?U)
                  (name \<mapsto> ?I\<lparr>attributes := attributes ?I @ butlast attrs\<rparr>),
               attribute_buf := last attrs, character_pos := pos\<rparr>)"
      using lsf False vatt by (intro consumes_attribute_list) simp_all
    then obtain pos3 where a: "consumes inc ('' '' @ write_names attrs) ?U
           (?U\<lparr>section_data := (section_data ?U)
                  (name \<mapsto> ?I\<lparr>attributes := attributes ?I @ butlast attrs\<rparr>),
               attribute_buf := last attrs, character_pos := pos3\<rparr>)"
      by blast
    let ?V = "?U\<lparr>section_data := (section_data ?U)
                  (name \<mapsto> ?I\<lparr>attributes := attributes ?I @ butlast attrs\<rparr>),
               attribute_buf := last attrs, character_pos := pos3\<rparr>"
    have nl: "consumes inc [newline] ?V (next_pos (on_newline ?V))"
      by (intro consumes_char) (simp_all add: switch_char_def)
    have fin: "next_pos (on_newline ?V) =
        st\<lparr>section_data := (section_data st)
                  (name \<mapsto> \<lparr>inheritances = filter (\<lambda>x. x \<in> ?K) inh, attributes = attrs,
                             values_map = Map.empty\<rparr>),
               section_buf := name, section_ptr := Some name, line := line st + 1,
               character_pos := 1, messages := messages st @ ms2\<rparr>"
      using lsf lv bl
      by (simp add: on_newline_def PushAttribute_def update_section_def next_pos_def Let_def
          empty_Section_def)
    from e a have "consumes inc ('' ='' @ '' '' @ write_names attrs) R ?V"
      by (rule consumes_append)
    then have ea: "consumes inc ('' = '' @ write_names attrs) R ?V" by simp
    from i ea nl have "consumes inc ((if inh \<noteq> [] then '' : '' @ write_names inh else [])
         @ ('' = '' @ write_names attrs) @ [newline]) ?S (next_pos (on_newline ?V))"
      by (rule consumes_three)
    with h have "consumes inc ((CHR ''['' # name @ '']'') @ (if inh \<noteq> [] then '' : '' @ write_names inh else [])
         @ ('' = '' @ write_names attrs) @ [newline]) st (next_pos (on_newline ?V))"
      by (rule consumes_append)
    with False have "consumes inc
           ((CHR ''['' # name @ '']'')
            @ (if inh \<noteq> [] then '' : '' @ write_names inh else [])
            @ (if attrs \<noteq> [] then '' = '' @ write_names attrs else [])
            @ [newline]) st
           (st\<lparr>section_data := (section_data st)
                  (name \<mapsto> \<lparr>inheritances = filter (\<lambda>x. x \<in> ?K) inh, attributes = attrs,
                             values_map = Map.empty\<rparr>),
               section_buf := name, section_ptr := Some name, line := line st + 1,
               character_pos := 1, messages := messages st @ ms2\<rparr>)"
      unfolding fin by simp
    then show ?thesis by (rule exI)
  qed
qed

lemma consumes_saved_section_any:
  assumes ls: "line_start st" and new: "section_data st name = None"
    and pl: "plain_name name" and wr: "writable_section tgt"
    and ks: "distinct ks" "set ks = dom (values_map tgt)"
  shows "\<exists>l ms. consumes inc (save_section name tgt ks) st
           (st\<lparr>section_data := (section_data st)
                  (name \<mapsto> tgt\<lparr>inheritances :=
                     filter (\<lambda>x. x \<in> insert name (dom (section_data st))) (inheritances tgt)\<rparr>),
               section_buf := name, section_ptr := Some name, line := l, character_pos := 1,
               messages := messages st @ ms\<rparr>)"
proof -
  let ?inh = "filter (\<lambda>x. x \<in> insert name (dom (section_data st))) (inheritances tgt)"
  let ?sec0 = "\<lparr>inheritances = ?inh, attributes = attributes tgt, values_map = Map.empty\<rparr>"
  let ?header = "(CHR ''['' # name @ '']'')
            @ (if inheritances tgt \<noteq> [] then '' : '' @ write_names (inheritances tgt) else [])
            @ (if attributes tgt \<noteq> [] then '' = '' @ write_names (attributes tgt) else [])
            @ [newline]"
  have "\<exists>ms. consumes inc ?header st
           (st\<lparr>section_data := (section_data st)(name \<mapsto> ?sec0),
               section_buf := name, section_ptr := Some name, line := line st + 1,
               character_pos := 1, messages := messages st @ ms\<rparr>)"
  proof (rule consumes_header_line_any [OF ls new])
    show "\<forall>c\<in>set name. plain_char c" using pl by (simp add: plain_name_def)
    show "\<forall>x\<in>set (inheritances tgt). x \<noteq> [] \<and> (\<forall>c\<in>set x. plain_char c)"
      using wr by (auto simp: writable_section_def plain_name_def)
    show "\<forall>x\<in>set (attributes tgt). x \<noteq> [] \<and> (\<forall>c\<in>set x. plain_char c)"
      using wr by (auto simp: writable_section_def plain_name_def)
  qed
  then obtain ms where c1: "consumes inc ?header st
           (st\<lparr>section_data := (section_data st)(name \<mapsto> ?sec0),
               section_buf := name, section_ptr := Some name, line := line st + 1,
               character_pos := 1, messages := messages st @ ms\<rparr>)"
    by blast
  let ?s1 = "st\<lparr>section_data := (section_data st)(name \<mapsto> ?sec0),
               section_buf := name, section_ptr := Some name, line := line st + 1,
               character_pos := 1, messages := messages st @ ms\<rparr>"
  have ls1: "line_start ?s1" using ls by (simp add: line_start_def)
  have "\<exists>l p. consumes inc (concat (map (write_value tgt) ks)) ?s1
           (?s1\<lparr>section_data := (section_data ?s1)
                  (name \<mapsto> ?sec0\<lparr>values_map := values_map ?sec0 ++ (values_map tgt |` set ks)\<rparr>),
               line := l, character_pos := p\<rparr>)"
  proof (rule consumes_key_lines [OF ls1])
    show "section_ptr ?s1 = Some name" by simp
    show "section_data ?s1 name = Some ?sec0" by simp
    show "distinct ks" by (rule ks(1))
    show "\<forall>k\<in>set ks. values_map ?sec0 k = None \<and> k \<noteq> [] \<and> (\<forall>c\<in>set k. plain_char c) \<and>
           (\<exists>v. values_map tgt k = Some v \<and> (\<forall>c\<in>set v. value_char c))"
      using wr ks(2) by (auto simp: writable_section_def plain_name_def)
  qed
  then obtain l p where c2: "consumes inc (concat (map (write_value tgt) ks)) ?s1
           (?s1\<lparr>section_data := (section_data ?s1)
                  (name \<mapsto> ?sec0\<lparr>values_map := values_map ?sec0 ++ (values_map tgt |` set ks)\<rparr>),
               line := l, character_pos := p\<rparr>)"
    by blast
  let ?s2 = "?s1\<lparr>section_data := (section_data ?s1)
                  (name \<mapsto> ?sec0\<lparr>values_map := values_map ?sec0 ++ (values_map tgt |` set ks)\<rparr>),
               line := l, character_pos := p\<rparr>"
  have vm: "Map.empty ++ (values_map tgt |` set ks) = values_map tgt"
    using ks(2) by (simp add: restrict_map_def fun_eq_iff domIff)
  have tgt: "?sec0\<lparr>values_map := values_map ?sec0 ++ (values_map tgt |` set ks)\<rparr> =
             tgt\<lparr>inheritances := ?inh\<rparr>"
    using vm by simp
  have c3: "consumes inc [newline] ?s2 (next_pos (on_newline ?s2))"
    by (intro consumes_char) (simp_all add: switch_char_def)
  have fin: "next_pos (on_newline ?s2) =
      st\<lparr>section_data := (section_data st)(name \<mapsto> tgt\<lparr>inheritances := ?inh\<rparr>),
         section_buf := name, section_ptr := Some name, line := l + 1, character_pos := 1,
         messages := messages st @ ms\<rparr>"
    unfolding tgt using ls by (simp add: on_newline_def next_pos_def Let_def line_start_def)
  from c1 c2 c3 have "consumes inc (?header @ concat (map (write_value tgt) ks) @ [newline]) st
      (next_pos (on_newline ?s2))"
    by (rule consumes_three)
  moreover have "?header @ concat (map (write_value tgt) ks) @ [newline] = save_section name tgt ks"
    by (simp add: save_section_def)
  ultimately have "consumes inc (save_section name tgt ks) st
      (st\<lparr>section_data := (section_data st)(name \<mapsto> tgt\<lparr>inheritances := ?inh\<rparr>),
         section_buf := name, section_ptr := Some name, line := l + 1, character_pos := 1,
         messages := messages st @ ms\<rparr>)"
    unfolding fin by simp
  then show ?thesis by blast
qed

text \<open>
  The whole text of \<^verbatim>\<open>save\<close>, for every order of the sections: each section read is the saved
  section, its inheritance list filtered by the names known when its header is read.
\<close>

lemma read_back_Cons:
  assumes "n \<notin> set ns" and "D n = Some tgt"
  shows "(m(n \<mapsto> tgt\<lparr>inheritances := filter (\<lambda>x. x \<in> insert n known) (inheritances tgt)\<rparr>))
           ++ read_back (insert n known) ns D =
         m ++ read_back known (n # ns) D"
proof (rule ext)
  fix s
  have f: "filter (\<lambda>b. b = s \<or> b \<in> insert n known \<or> b \<in> set (takeWhile (\<lambda>m. m \<noteq> s) ns)) xs =
           filter (\<lambda>b. b = s \<or> b \<in> known \<or> b \<in> set (takeWhile (\<lambda>m. m \<noteq> s) (n # ns))) xs"
    if "s \<noteq> n" for xs
    using that by (intro filter_cong) auto
  have g: "filter (\<lambda>x. x \<in> insert n known) xs =
           filter (\<lambda>b. b = n \<or> b \<in> known \<or> b \<in> set (takeWhile (\<lambda>m. m \<noteq> n) (n # ns))) xs" for xs
    by (intro filter_cong) auto
  show "((m(n \<mapsto> tgt\<lparr>inheritances := filter (\<lambda>x. x \<in> insert n known) (inheritances tgt)\<rparr>))
           ++ read_back (insert n known) ns D) s =
        (m ++ read_back known (n # ns) D) s"
  proof (cases "s = n")
    case True
    with assms show ?thesis
      unfolding g by (simp add: map_add_def read_back_def)
  next
    case False
    then show ?thesis
      unfolding map_add_def read_back_def f [OF False]
      by (auto split: option.splits)
  qed
qed

lemma consumes_saved_sections_any:
  assumes "line_start st" and "distinct ns" and "\<forall>n\<in>set ns. section_data st n = None"
    and "set ns \<subseteq> dom D" and "writable D"
    and "\<forall>n sec. D n = Some sec \<longrightarrow> distinct (keys_of n) \<and> set (keys_of n) = dom (values_map sec)"
  shows "\<exists>st2 ms. consumes inc (save ns keys_of D) st st2 \<and> line_start st2 \<and>
           section_data st2 = section_data st ++ read_back (dom (section_data st)) ns D \<and>
           messages st2 = messages st @ ms"
  using assms
proof (induction ns arbitrary: st)
  case Nil
  have "consumes inc (save [] keys_of D) st st" by (simp add: save_def consumes_Nil)
  moreover have "section_data st = section_data st ++ read_back (dom (section_data st)) [] D"
    by (simp add: read_back_def map_add_def)
  moreover have "messages st = messages st @ []" by simp
  ultimately show ?case using Nil.prems(1) by blast
next
  case (Cons n ns)
  from Cons.prems(4) obtain tgt where tgt: "D n = Some tgt" by auto
  with Cons.prems(5) have pn: "plain_name n" and wr: "writable_section tgt"
    by (auto simp: writable_def)
  from tgt Cons.prems(6) have ko: "distinct (keys_of n)" "set (keys_of n) = dom (values_map tgt)"
    by auto
  from Cons.prems(3) have new: "section_data st n = None" by simp
  let ?tgt = "tgt\<lparr>inheritances :=
                 filter (\<lambda>x. x \<in> insert n (dom (section_data st))) (inheritances tgt)\<rparr>"
  from consumes_saved_section_any [OF Cons.prems(1) new pn wr ko, of inc]
  obtain l ms1 where c1: "consumes inc (save_section n tgt (keys_of n)) st
           (st\<lparr>section_data := (section_data st)(n \<mapsto> ?tgt), section_buf := n,
               section_ptr := Some n, line := l, character_pos := 1,
               messages := messages st @ ms1\<rparr>)"
    by blast
  let ?s1 = "st\<lparr>section_data := (section_data st)(n \<mapsto> ?tgt), section_buf := n,
               section_ptr := Some n, line := l, character_pos := 1,
               messages := messages st @ ms1\<rparr>"
  have "\<exists>st2 ms. consumes inc (save ns keys_of D) ?s1 st2 \<and> line_start st2 \<and>
           section_data st2 = section_data ?s1 ++ read_back (dom (section_data ?s1)) ns D \<and>
           messages st2 = messages ?s1 @ ms"
  proof (rule Cons.IH)
    show "line_start ?s1" using Cons.prems(1) by (simp add: line_start_def)
    show "distinct ns" using Cons.prems(2) by simp
    show "\<forall>m\<in>set ns. section_data ?s1 m = None" using Cons.prems(2,3) by auto
    show "set ns \<subseteq> dom D" using Cons.prems(4) by simp
    show "writable D" by (rule Cons.prems(5))
    show "\<forall>n sec. D n = Some sec \<longrightarrow> distinct (keys_of n) \<and> set (keys_of n) = dom (values_map sec)"
      by (rule Cons.prems(6))
  qed
  then obtain st2 ms2 where c2: "consumes inc (save ns keys_of D) ?s1 st2" and l2: "line_start st2"
    and d2: "section_data st2 = section_data ?s1 ++ read_back (dom (section_data ?s1)) ns D"
    and r2: "messages st2 = messages ?s1 @ ms2"
    by blast
  have dm: "dom (section_data ?s1) = insert n (dom (section_data st))" by simp
  from Cons.prems(2) have nn: "n \<notin> set ns" by simp
  from d2 have d: "section_data st2 = section_data st ++ read_back (dom (section_data st)) (n # ns) D"
    unfolding dm
    using read_back_Cons [of n ns D tgt "section_data st" "dom (section_data st)", OF nn tgt]
    by simp
  from r2 have r: "messages st2 = messages st @ (ms1 @ ms2)" by simp
  from c1 c2 have "consumes inc (save_section n tgt (keys_of n) @ save ns keys_of D) st st2"
    by (rule consumes_append)
  moreover have "save_section n tgt (keys_of n) @ save ns keys_of D = save (n # ns) keys_of D"
    using tgt by (simp add: save_def)
  ultimately have "consumes inc (save (n # ns) keys_of D) st st2" by simp
  with l2 d r show ?case by blast
qed

text \<open>
  The document read back is the saved document exactly when every section is visited after
  the sections it inherits from.
\<close>

lemma bases_first_iff:
  "distinct ns \<Longrightarrow>
   bases_first known ns D \<longleftrightarrow>
     (\<forall>n\<in>set ns. \<forall>sec. D n = Some sec \<longrightarrow>
        (\<forall>b\<in>set (inheritances sec).
           b = n \<or> b \<in> known \<or> b \<in> set (takeWhile (\<lambda>m. m \<noteq> n) ns)))"
proof (induction ns arbitrary: known)
  case Nil
  show ?case by simp
next
  case (Cons a ns)
  from Cons.prems have d: "distinct ns" and a: "a \<notin> set ns" by simp_all
  have tw: "b \<in> set (takeWhile (\<lambda>m. m \<noteq> n) (a # ns)) \<longleftrightarrow>
            b = a \<or> b \<in> set (takeWhile (\<lambda>m. m \<noteq> n) ns)"
    if "n \<in> set ns" for n b
    using that a by auto
  have "bases_first known (a # ns) D \<longleftrightarrow>
        (\<forall>sec. D a = Some sec \<longrightarrow> (\<forall>b\<in>set (inheritances sec). b = a \<or> b \<in> known)) \<and>
        bases_first (insert a known) ns D"
    by (auto split: option.splits)
  also have "\<dots> \<longleftrightarrow>
        (\<forall>sec. D a = Some sec \<longrightarrow> (\<forall>b\<in>set (inheritances sec). b = a \<or> b \<in> known)) \<and>
        (\<forall>n\<in>set ns. \<forall>sec. D n = Some sec \<longrightarrow>
           (\<forall>b\<in>set (inheritances sec).
              b = n \<or> b \<in> insert a known \<or> b \<in> set (takeWhile (\<lambda>m. m \<noteq> n) ns)))"
    unfolding Cons.IH [OF d] ..
  also have "\<dots> \<longleftrightarrow>
        (\<forall>sec. D a = Some sec \<longrightarrow> (\<forall>b\<in>set (inheritances sec). b = a \<or> b \<in> known)) \<and>
        (\<forall>n\<in>set ns. \<forall>sec. D n = Some sec \<longrightarrow>
           (\<forall>b\<in>set (inheritances sec).
              b = n \<or> b \<in> known \<or> b \<in> set (takeWhile (\<lambda>m. m \<noteq> n) (a # ns))))"
    using tw by blast
  also have "\<dots> \<longleftrightarrow>
        (\<forall>n\<in>set (a # ns). \<forall>sec. D n = Some sec \<longrightarrow>
           (\<forall>b\<in>set (inheritances sec).
              b = n \<or> b \<in> known \<or> b \<in> set (takeWhile (\<lambda>m. m \<noteq> n) (a # ns))))"
    by simp
  finally show ?case .
qed

lemma inheritances_update_id:
  "(sec\<lparr>inheritances := xs\<rparr> = sec) = (xs = inheritances sec)"
  by (cases sec) simp

lemma read_back_id:
  assumes "distinct names" and "set names = dom D"
  shows "read_back {} names D = D \<longleftrightarrow> bases_first {} names D"
proof -
  have "read_back {} names D = D \<longleftrightarrow> (\<forall>s. read_back {} names D s = D s)"
    by (simp add: fun_eq_iff)
  also have "\<dots> \<longleftrightarrow>
     (\<forall>s\<in>set names. \<forall>sec. D s = Some sec \<longrightarrow>
        filter (\<lambda>b. b = s \<or> b \<in> {} \<or> b \<in> set (takeWhile (\<lambda>m. m \<noteq> s) names)) (inheritances sec)
          = inheritances sec)"
    using assms(2)
    by (auto simp: read_back_def inheritances_update_id domIff split: if_splits simp del: filter_id_conv)
  also have "\<dots> \<longleftrightarrow> bases_first {} names D"
    unfolding bases_first_iff [OF assms(1)] filter_id_conv ..
  finally show ?thesis .
qed

text \<open>
  C7, amended. Let the section names, inheritance names, attributes and keys of a document
  \<open>D\<close> be plain (none of the characters the parser treats specially, white space and quotes
  included), inheritance names, attributes and keys non-empty, and raw values made of plain
  characters and commas. Let \<^verbatim>\<open>save\<close> visit the sections in the order \<open>names\<close> and the keys of
  each section in the order \<open>keys_of\<close>, any orders that visit every section and every key
  once. Then loading the saved text into a parser with an empty document returns, and the
  document read has the section names of \<open>D\<close> and, for each section, its attribute list and
  its values; the inheritance list of a section is its list in \<open>D\<close> without the names that
  are neither its own name nor the name of a section written before it. So \<open>D\<close> itself is read
  back exactly when every section is written after the sections it inherits from, and then no
  message is logged.
\<close>

theorem save_load_round_trip:
  "writable D \<and> visits names keys_of D \<and> section_data p = Map.empty \<longrightarrow>
     (\<exists>p' ms. load (Suc n) (fs(path \<mapsto> save names keys_of D)) path p = Some p' \<and>
        (\<forall>s. section_data p' s =
           map_option
             (\<lambda>sec. sec\<lparr>inheritances :=
                filter (\<lambda>b. b = s \<or> b \<in> set (takeWhile (\<lambda>m. m \<noteq> s) names)) (inheritances sec)\<rparr>)
             (D s)) \<and>
        messages p' = messages p @ ms \<and>
        (section_data p' = D \<longleftrightarrow> bases_first {} names D) \<and>
        (bases_first {} names D \<longrightarrow> ms = []))"
proof
  assume a: "writable D \<and> visits names keys_of D \<and> section_data p = Map.empty"
  let ?fs = "fs(path \<mapsto> save names keys_of D)"
  let ?st0 = "init_frame (p\<lparr>current_file := path\<rparr>)"
  from a have v: "distinct names" "set names = dom D"
    "\<forall>n sec. D n = Some sec \<longrightarrow> distinct (keys_of n) \<and> set (keys_of n) = dom (values_map sec)"
    by (simp_all add: visits_def)
  have ls0: "line_start ?st0" by (simp add: line_start_def init_frame_def)
  have sd0: "section_data ?st0 = Map.empty" using a by (simp add: init_frame_def)
  have "\<exists>st2 ms. consumes (load n ?fs) (save names keys_of D) ?st0 st2 \<and> line_start st2 \<and>
           section_data st2 = section_data ?st0 ++ read_back (dom (section_data ?st0)) names D \<and>
           messages st2 = messages ?st0 @ ms"
  proof (rule consumes_saved_sections_any [OF ls0 v(1)])
    show "\<forall>n\<in>set names. section_data ?st0 n = None" using sd0 by simp
    show "set names \<subseteq> dom D" using v(2) by simp
    show "writable D" using a by simp
    show "\<forall>n sec. D n = Some sec \<longrightarrow> distinct (keys_of n) \<and> set (keys_of n) = dom (values_map sec)"
      by (rule v(3))
  qed
  then obtain st2 ms where c: "consumes (load n ?fs) (save names keys_of D) ?st0 st2"
    and l2: "line_start st2"
    and d2: "section_data st2 = section_data ?st0 ++ read_back (dom (section_data ?st0)) names D"
    and m2: "messages st2 = messages ?st0 @ ms"
    by blast
  from c have "parse_loop (load n ?fs) (save names keys_of D @ []) ?st0 = parse_loop (load n ?fs) [] st2"
    unfolding consumes_def by blast
  then have run: "parse_loop (load n ?fs) (save names keys_of D) ?st0 = Some (next_pos (on_newline st2))"
    by (simp add: switch_char_def)
  let ?p' = "object_of (next_pos (on_newline st2))"
  from run have ld: "load (Suc n) ?fs path p = Some ?p'" by simp
  from d2 sd0 have "section_data st2 = read_back {} names D" by simp
  with l2 have sd: "section_data ?p' = read_back {} names D"
    by (simp add: on_newline_def next_pos_def Let_def line_start_def object_of_def)
  from l2 m2 have ms: "messages ?p' = messages p @ ms"
    by (simp add: on_newline_def next_pos_def Let_def line_start_def init_frame_def object_of_def)
  have each: "\<forall>s. section_data ?p' s =
           map_option
             (\<lambda>sec. sec\<lparr>inheritances :=
                filter (\<lambda>b. b = s \<or> b \<in> set (takeWhile (\<lambda>m. m \<noteq> s) names)) (inheritances sec)\<rparr>)
             (D s)"
    unfolding sd using v(2) by (auto simp: read_back_def domIff)
  have same: "section_data ?p' = D \<longleftrightarrow> bases_first {} names D"
    unfolding sd by (rule read_back_id [OF v(1,2)])
  have quiet: "ms = []" if b: "bases_first {} names D"
  proof -
    from a b save_load_bases_first [of D names keys_of p n fs path]
    obtain q where "load (Suc n) ?fs path p = Some q" "messages q = messages p"
      by blast
    with ld ms show ?thesis by (simp del: load.simps)
  qed
  from ld each ms same quiet
  show "\<exists>p' ms. load (Suc n) ?fs path p = Some p' \<and>
        (\<forall>s. section_data p' s =
           map_option
             (\<lambda>sec. sec\<lparr>inheritances :=
                filter (\<lambda>b. b = s \<or> b \<in> set (takeWhile (\<lambda>m. m \<noteq> s) names)) (inheritances sec)\<rparr>)
             (D s)) \<and>
        messages p' = messages p @ ms \<and>
        (section_data p' = D \<longleftrightarrow> bases_first {} names D) \<and>
        (bases_first {} names D \<longrightarrow> ms = [])"
    by blast
qed

text \<open>
  The document in which \<open>A\<close> inherits \<open>B\<close> and \<open>C\<close>, written in the order \<open>A\<close>, \<open>C\<close>, \<open>B\<close>:
  \<open>A\<close> is read back without bases. A document with one section and one key, which can be
  visited in one order only: it is read back as it was.
\<close>

theorem save_load_round_trip_witness:
  "writable doc_two_bases \<and>
   visits [''A'', ''C'', ''B''] keys_two_bases doc_two_bases \<and>
   section_data new_parser = Map.empty \<and>
   \<not> bases_first {} [''A'', ''C'', ''B''] doc_two_bases \<and>
   (\<exists>p'. load 1 (file_system ''f'' (save [''A'', ''C'', ''B''] keys_two_bases doc_two_bases)) ''f''
            new_parser = Some p' \<and>
      section_data p' ''A'' = Some \<lparr>inheritances = [], attributes = [], values_map = Map.empty\<rparr> \<and>
      section_data p' ''B'' = doc_two_bases ''B'' \<and>
      section_data p' ''C'' = doc_two_bases ''C'' \<and>
      section_data p' \<noteq> doc_two_bases) \<and>
   writable doc_self_base \<and>
   visits [''s''] keys_k doc_self_base \<and>
   bases_first {} [''s''] doc_self_base \<and>
   save [''s''] keys_k doc_self_base =
     ''[s] : s = f'' @ [newline] @ ''k = 1,2'' @ [newline, newline] \<and>
   (\<exists>p'. load 1 (file_system ''f'' (save [''s''] keys_k doc_self_base)) ''f'' new_parser = Some p' \<and>
      section_data p' = doc_self_base \<and> messages p' = [])"
proof -
  have pc: "plain_name ''A''" "plain_name ''B''" "plain_name ''C''" "plain_name ''k''"
    "plain_name ''s''" "plain_name ''f''"
    by (simp_all add: plain_name_def plain_char_def special_characters_def)
  have vc: "\<forall>c\<in>set ''1''. value_char c" "\<forall>c\<in>set ''2''. value_char c"
    "\<forall>c\<in>set ''1,2''. value_char c"
    by (simp_all add: value_char_def plain_char_def special_characters_def)
  have w: "writable doc_two_bases"
    unfolding writable_def writable_section_def doc_two_bases_def
    using pc vc by (auto split: if_splits)
  have v: "visits [''A'', ''C'', ''B''] keys_two_bases doc_two_bases"
    unfolding visits_def doc_two_bases_def keys_two_bases_def
    by (auto split: if_splits)
  have b: "\<not> bases_first {} [''A'', ''C'', ''B''] doc_two_bases"
    by (simp add: doc_two_bases_def)
  have e: "section_data new_parser = Map.empty" by (simp add: new_parser_def)
  have w': "writable doc_self_base"
    unfolding writable_def writable_section_def doc_self_base_def
    using pc vc by (auto split: if_splits)
  have v': "visits [''s''] keys_k doc_self_base"
    unfolding visits_def doc_self_base_def keys_k_def
    by (auto split: if_splits)
  have b': "bases_first {} [''s''] doc_self_base"
    by (simp add: doc_self_base_def)
  have t': "save [''s''] keys_k doc_self_base =
     ''[s] : s = f'' @ [newline] @ ''k = 1,2'' @ [newline, newline]"
    by (simp add: save_def save_section_def write_value_def write_names_def doc_self_base_def
        keys_k_def)
  from w v e save_load_round_trip
    [of doc_two_bases "[''A'', ''C'', ''B'']" keys_two_bases new_parser 0 Map.empty "''f''"]
  obtain p' ms where
    ld: "load 1 (file_system ''f'' (save [''A'', ''C'', ''B''] keys_two_bases doc_two_bases)) ''f''
            new_parser = Some p'"
    and each: "\<forall>s. section_data p' s =
           map_option
             (\<lambda>sec. sec\<lparr>inheritances :=
                filter (\<lambda>b. b = s \<or> b \<in> set (takeWhile (\<lambda>m. m \<noteq> s) [''A'', ''C'', ''B'']))
                  (inheritances sec)\<rparr>)
             (doc_two_bases s)"
    and same: "section_data p' = doc_two_bases \<longleftrightarrow> bases_first {} [''A'', ''C'', ''B''] doc_two_bases"
    by (auto simp: file_system_def simp del: load.simps bases_first.simps)
  from each have A: "section_data p' ''A'' =
      Some \<lparr>inheritances = [], attributes = [], values_map = Map.empty\<rparr>"
    by (simp add: doc_two_bases_def)
  from each have B: "section_data p' ''B'' = doc_two_bases ''B''"
    by (simp add: doc_two_bases_def)
  from each have C: "section_data p' ''C'' = doc_two_bases ''C''"
    by (simp add: doc_two_bases_def)
  from same b have ne: "section_data p' \<noteq> doc_two_bases" by simp
  from ld A B C ne have first: "\<exists>p'. load 1 (file_system ''f'' (save [''A'', ''C'', ''B''] keys_two_bases doc_two_bases)) ''f''
            new_parser = Some p' \<and>
      section_data p' ''A'' = Some \<lparr>inheritances = [], attributes = [], values_map = Map.empty\<rparr> \<and>
      section_data p' ''B'' = doc_two_bases ''B'' \<and>
      section_data p' ''C'' = doc_two_bases ''C'' \<and>
      section_data p' \<noteq> doc_two_bases"
    by blast
  from w' v' e save_load_round_trip
    [of doc_self_base "[''s'']" keys_k new_parser 0 Map.empty "''f''"]
  obtain q ms' where
    ld': "load 1 (file_system ''f'' (save [''s''] keys_k doc_self_base)) ''f'' new_parser = Some q"
    and msq: "messages q = messages new_parser @ ms'"
    and same': "section_data q = doc_self_base \<longleftrightarrow> bases_first {} [''s''] doc_self_base"
    and quiet: "bases_first {} [''s''] doc_self_base \<longrightarrow> ms' = []"
    by (auto simp: file_system_def simp del: load.simps bases_first.simps)
  from same' b' have sq: "section_data q = doc_self_base" by simp
  from quiet b' msq have mq: "messages q = []" by (simp add: new_parser_def)
  from ld' sq mq have second: "\<exists>p'. load 1 (file_system ''f'' (save [''s''] keys_k doc_self_base)) ''f'' new_parser = Some p' \<and>
      section_data p' = doc_self_base \<and> messages p' = []"
    by blast
  from w v e b first w' v' b' t' second show ?thesis by (intro conjI)
qed

end
